theory Spec2Isabelle
  imports Complex_Main "HOL-Library.Multiset"
begin

section \<open>Number model, settings and errors\<close>

text \<open>
  JavaScript numbers are modelled as exact reals: \<open>Math.exp\<close>, \<open>Math.log\<close> and
  \<open>Math.pow\<close> are \<^const>\<open>exp\<close>, \<^const>\<open>ln\<close> and \<^const>\<open>powr\<close>; IEEE rounding,
  infinities and NaN are not represented.  The pseudo random generator behind
  \<open>Math.random()\<close> is a fixed sequence \<open>rs\<close> of draws together with a read position
  that every call advances by one.
\<close>

type_synonym draws = "nat \<Rightarrow> real"

definition valid_draws :: "draws \<Rightarrow> bool" where
  \<comment> \<open>the contract of \<open>Math.random()\<close>: every draw lies in \<open>[0, 1)\<close>\<close>
  "valid_draws rs \<longleftrightarrow> (\<forall>k. 0 \<le> rs k \<and> rs k < 1)"

datatype error =
    UndefinedValue            \<comment> \<open>an array read out of range (JavaScript \<open>undefined\<close>)\<close>
  | UnknownKnob "string option"  \<comment> \<open>\<open>throw new Error(`Unknown knob id: ...`)\<close>\<close>
  | GenerationFailed          \<comment> \<open>\<open>throw new Error("Failed to generate valid rounds.")\<close>\<close>

definition bindE :: "error + 'a \<Rightarrow> ('a \<Rightarrow> error + 'b) \<Rightarrow> error + 'b" where
  "bindE m f = (case m of Inl e \<Rightarrow> Inl e | Inr x \<Rightarrow> f x)"

definition ROUNDS_PER_GAME :: nat where "ROUNDS_PER_GAME = 10"
definition TAKE_SECONDS :: real where "TAKE_SECONDS = 2.0"
definition SILENCE_GAP_SECONDS :: real where "SILENCE_GAP_SECONDS = 0.25"
definition LOOP_CYCLE_PAUSE_SECONDS :: real where "LOOP_CYCLE_PAUSE_SECONDS = 0.35"
definition TAKE_FADE_SECONDS :: real where "TAKE_FADE_SECONDS = 0.02"
definition SCHEDULING_LEAD_SECONDS :: real where "SCHEDULING_LEAD_SECONDS = 0.05"
definition TAKE_CLEANUP_EXTRA_SECONDS :: real where "TAKE_CLEANUP_EXTRA_SECONDS = 0.15"
definition FEEDBACK_ADVANCE_MS :: real where "FEEDBACK_ADVANCE_MS = 900"

definition NOTE_FREQUENCIES_HZ :: "real list" where
  "NOTE_FREQUENCIES_HZ = [98.0, 110.0, 130.81, 146.83, 164.81]"
definition NOTE_TIMES_SECONDS :: "real list" where
  "NOTE_TIMES_SECONDS = [0.0, 0.33, 0.66, 1.0, 1.33, 1.66]"

definition AMP_ATTACK_SECONDS :: real where "AMP_ATTACK_SECONDS = 0.005"
definition AMP_RELEASE_SECONDS :: real where "AMP_RELEASE_SECONDS = 0.05"
definition FILTER_ENV_ATTACK_SECONDS :: real where "FILTER_ENV_ATTACK_SECONDS = 0.005"
definition FILTER_ENV_AMOUNT_HZ :: real where "FILTER_ENV_AMOUNT_HZ = 500"
definition FILTER_STACK_SIZE :: real where "FILTER_STACK_SIZE = 2"
definition FILTER_STACK_Q2 :: real where "FILTER_STACK_Q2 = 0.707"

definition MASTER_GAIN :: real where "MASTER_GAIN = 0.85"
definition VOICE_PEAK_GAIN :: real where "VOICE_PEAK_GAIN = 0.11"

definition CUTOFF_BASE_HZ_MIN :: real where "CUTOFF_BASE_HZ_MIN = 250"
definition CUTOFF_BASE_HZ_MAX :: real where "CUTOFF_BASE_HZ_MAX = 2500"
definition CUTOFF_CHANGE_MULTIPLIERS :: "real list" where
  "CUTOFF_CHANGE_MULTIPLIERS = [2.6, 0.38]"
definition CUTOFF_BASE_LOG_SKEW :: real where "CUTOFF_BASE_LOG_SKEW = 1.8"

definition RESONANCE_BASE_Q_MIN :: real where "RESONANCE_BASE_Q_MIN = 0.5"
definition RESONANCE_BASE_Q_MAX :: real where "RESONANCE_BASE_Q_MAX = 8.0"
definition RESONANCE_CHANGE_DELTA_Q :: real where "RESONANCE_CHANGE_DELTA_Q = 2.0"
definition RESONANCE_Q_MIN :: real where "RESONANCE_Q_MIN = 0.5"
definition RESONANCE_Q_MAX :: real where "RESONANCE_Q_MAX = 12.0"

definition DECAY_BASE_MS_MIN :: real where "DECAY_BASE_MS_MIN = 120"
definition DECAY_BASE_MS_MAX :: real where "DECAY_BASE_MS_MAX = 1200"
definition DECAY_CHANGE_MULTIPLIERS :: "real list" where
  "DECAY_CHANGE_MULTIPLIERS = [1.6, 0.6]"
definition DECAY_MS_MIN :: real where "DECAY_MS_MIN = 80"
definition DECAY_MS_MAX :: real where "DECAY_MS_MAX = 2000"

lemmas settings_defs =
  ROUNDS_PER_GAME_def TAKE_SECONDS_def SILENCE_GAP_SECONDS_def LOOP_CYCLE_PAUSE_SECONDS_def
  TAKE_FADE_SECONDS_def SCHEDULING_LEAD_SECONDS_def TAKE_CLEANUP_EXTRA_SECONDS_def
  NOTE_FREQUENCIES_HZ_def NOTE_TIMES_SECONDS_def AMP_ATTACK_SECONDS_def AMP_RELEASE_SECONDS_def
  FILTER_ENV_ATTACK_SECONDS_def FILTER_ENV_AMOUNT_HZ_def FILTER_STACK_SIZE_def
  FILTER_STACK_Q2_def CUTOFF_BASE_HZ_MIN_def CUTOFF_BASE_HZ_MAX_def
  CUTOFF_CHANGE_MULTIPLIERS_def CUTOFF_BASE_LOG_SKEW_def RESONANCE_BASE_Q_MIN_def
  RESONANCE_BASE_Q_MAX_def RESONANCE_CHANGE_DELTA_Q_def RESONANCE_Q_MIN_def
  RESONANCE_Q_MAX_def DECAY_BASE_MS_MIN_def DECAY_BASE_MS_MAX_def
  DECAY_CHANGE_MULTIPLIERS_def DECAY_MS_MIN_def DECAY_MS_MAX_def

record knob =
  knob_id :: string
  label :: string

definition KNOBS :: "knob list" where
  "KNOBS = [\<lparr>knob_id = ''cutoff'', label = ''Cutoff''\<rparr>,
            \<lparr>knob_id = ''resonance'', label = ''Resonance''\<rparr>,
            \<lparr>knob_id = ''decay'', label = ''Decay''\<rparr>]"

definition PARAM_EPS :: real where "PARAM_EPS = 1 / 1000000000"

section \<open>Numeric and random helpers\<close>

definition clamp :: "real \<Rightarrow> real \<Rightarrow> real \<Rightarrow> real" where
  "clamp x lo hi = min hi (max lo x)"

definition randFloat :: "real \<Rightarrow> real \<Rightarrow> draws \<Rightarrow> nat \<Rightarrow> real \<times> nat" where
  "randFloat lo hi rs n = (lo + rs n * (hi - lo), Suc n)"

definition randLogFloatSkew :: "real \<Rightarrow> real \<Rightarrow> real \<Rightarrow> draws \<Rightarrow> nat \<Rightarrow> real \<times> nat" where
  \<comment> \<open>\<open>Number.isFinite(skewPower)\<close> holds of every real\<close>
  "randLogFloatSkew lo hi skewPower rs n =
     (let safeSkew = max 0.05 skewPower;
          u = rs n powr safeSkew;
          safeMin = max (1 / 1000000) lo;
          safeMax = max (safeMin * 1.000001) hi
      in (safeMin * exp (ln (safeMax / safeMin) * u), Suc n))"

definition pick :: "'a list \<Rightarrow> draws \<Rightarrow> nat \<Rightarrow> error + ('a \<times> nat)" where
  \<comment> \<open>\<open>arr[Math.floor(Math.random() * arr.length)]\<close>; a read outside the array gives
      \<open>undefined\<close>, reported here as an error\<close>
  "pick arr rs n =
     (let i = \<lfloor>rs n * real (length arr)\<rfloor>
      in if 0 \<le> i \<and> nat i < length arr then Inr (arr ! nat i, Suc n)
         else Inl UndefinedValue)"

text \<open>
  The loop of \<open>shuffle\<close> counts \<open>i\<close> down from \<open>arr.length - 1\<close> to 1.  A swap index
  outside the array would read \<open>undefined\<close> and grow the array; as in \<open>pick\<close> this is
  reported as an error.  Neither happens for draws in \<open>[0, 1)\<close>.
\<close>

fun shuffle_loop :: "draws \<Rightarrow> nat \<Rightarrow> 'a list \<Rightarrow> nat \<Rightarrow> error + ('a list \<times> nat)" where
  "shuffle_loop rs 0 arr n = Inr (arr, n)"
| "shuffle_loop rs (Suc k) arr n =
     (let i = Suc k;
          j = \<lfloor>rs n * real (i + 1)\<rfloor>
      in if 0 \<le> j \<and> nat j < length arr \<and> i < length arr
         then shuffle_loop rs k (arr[i := arr ! nat j, nat j := arr ! i]) (Suc n)
         else Inl UndefinedValue)"

definition shuffle :: "'a list \<Rightarrow> draws \<Rightarrow> nat \<Rightarrow> error + ('a list \<times> nat)" where
  "shuffle list rs n = shuffle_loop rs (length list - 1) list n"

definition nearEqual :: "real \<Rightarrow> real \<Rightarrow> bool" where
  "nearEqual a b \<longleftrightarrow> \<bar>a - b\<bar> \<le> PARAM_EPS"

definition msToSec :: "real \<Rightarrow> real" where
  "msToSec ms = ms / 1000"

section \<open>Round generator\<close>

record params =
  cutoffHz :: real
  resonanceQ :: real
  decayMs :: real
  noteFreqHz :: real

record round =
  index :: nat
  changedKnob :: string
  takeA :: params
  takeB :: params

definition knobBag :: "string list" where
  \<comment> \<open>the two nested loops: every knob id pushed three times, in the order of \<open>KNOBS\<close>\<close>
  "knobBag = concat (map (\<lambda>k. replicate 3 (knob_id k)) KNOBS)"

definition applyChange :: "string \<Rightarrow> params \<Rightarrow> params \<Rightarrow> draws \<Rightarrow> nat \<Rightarrow> error + (params \<times> nat)" where
  \<comment> \<open>the \<open>if / else if\<close> chain of \<open>generateRounds\<close> that perturbs \<open>takeB\<close>\<close>
  "applyChange ck tA tB rs n =
     (if ck = ''cutoff'' then
        bindE (pick CUTOFF_CHANGE_MULTIPLIERS rs n)
          (\<lambda>(m, n'). Inr (tB\<lparr>cutoffHz := cutoffHz tA * m\<rparr>, n'))
      else if ck = ''resonance'' then
        (let sign = (if rs n < 0.5 then - 1 else 1)
         in Inr (tB\<lparr>resonanceQ :=
                   clamp (resonanceQ tA + sign * RESONANCE_CHANGE_DELTA_Q)
                     RESONANCE_Q_MIN RESONANCE_Q_MAX\<rparr>, Suc n))
      else if ck = ''decay'' then
        bindE (pick DECAY_CHANGE_MULTIPLIERS rs n)
          (\<lambda>(m, n'). Inr (tB\<lparr>decayMs :=
                   clamp (decayMs tA * m) DECAY_MS_MIN DECAY_MS_MAX\<rparr>, n'))
      else Inl (UnknownKnob (Some ck)))"

definition drawBase :: "draws \<Rightarrow> nat \<Rightarrow> error + (params \<times> nat)" where
  \<comment> \<open>the object literal \<open>base\<close>: four draws, in the order of its fields\<close>
  "drawBase rs n =
     (let (c, n1) = randLogFloatSkew CUTOFF_BASE_HZ_MIN CUTOFF_BASE_HZ_MAX CUTOFF_BASE_LOG_SKEW rs n;
          (q, n2) = randFloat RESONANCE_BASE_Q_MIN RESONANCE_BASE_Q_MAX rs n1;
          (d, n3) = randFloat DECAY_BASE_MS_MIN DECAY_BASE_MS_MAX rs n2
      in bindE (pick NOTE_FREQUENCIES_HZ rs n3)
           (\<lambda>(f, n4). Inr (\<lparr>cutoffHz = c, resonanceQ = q, decayMs = d, noteFreqHz = f\<rparr>, n4)))"

definition generateRound :: "string list \<Rightarrow> nat \<Rightarrow> draws \<Rightarrow> nat \<Rightarrow> error + (round \<times> nat)" where
  \<comment> \<open>one pass of the loop over \<open>i\<close>; \<open>changedKnobs[i]\<close> out of range is \<open>undefined\<close>,
      which matches no knob and reaches the final \<open>throw\<close>\<close>
  "generateRound changedKnobs i rs n =
     bindE (drawBase rs n) (\<lambda>(base, n4).
       if i < length changedKnobs then
         (let ck = changedKnobs ! i; tA = base; tB = base
          in bindE (applyChange ck tA tB rs n4)
               (\<lambda>(tB', n5). Inr (\<lparr>index = i, changedKnob = ck, takeA = tA, takeB = tB'\<rparr>, n5)))
       else Inl (UnknownKnob None))"

fun generateRounds_loop :: "string list \<Rightarrow> nat list \<Rightarrow> draws \<Rightarrow> nat \<Rightarrow> error + (round list \<times> nat)" where
  "generateRounds_loop changedKnobs [] rs n = Inr ([], n)"
| "generateRounds_loop changedKnobs (i # is) rs n =
     bindE (generateRound changedKnobs i rs n) (\<lambda>(r, n').
       bindE (generateRounds_loop changedKnobs is rs n') (\<lambda>(rounds, n'').
         Inr (r # rounds, n'')))"

definition generateRounds :: "draws \<Rightarrow> nat \<Rightarrow> error + (round list \<times> nat)" where
  "generateRounds rs n =
     bindE (pick KNOBS rs n) (\<lambda>(k, n1).
       bindE (shuffle (knobBag @ [knob_id k]) rs n1) (\<lambda>(changedKnobs, n2).
         generateRounds_loop changedKnobs [0 ..< ROUNDS_PER_GAME] rs n2))"

section \<open>Round validator\<close>

datatype violation =
    WrongLength nat                     \<comment> \<open>\<open>Expected N rounds.\<close>\<close>
  | NoteFreqDiffers nat                 \<comment> \<open>\<open>Round i: noteFreq differs (not allowed).\<close>\<close>
  | ExpectedOneChange nat "string list" \<comment> \<open>\<open>Round i: expected 1 knob change, got ...\<close>\<close>
  | WrongKnob nat string string         \<comment> \<open>\<open>Round i: changedKnob says x but diff is y.\<close>\<close>
  | KnobTooFew string nat               \<comment> \<open>\<open>Knob x appears c times (< 3).\<close>\<close>

record validation =
  ok :: bool
  errors :: "violation list"
  counts :: "string \<rightharpoonup> nat"

definition count_of :: "(string \<rightharpoonup> nat) \<Rightarrow> string \<Rightarrow> nat" where
  \<comment> \<open>\<open>counts[id] || 0\<close>\<close>
  "count_of cs k = (case cs k of None \<Rightarrow> 0 | Some c \<Rightarrow> c)"

definition diffs_of :: "params \<Rightarrow> params \<Rightarrow> string list" where
  "diffs_of a b =
     (if \<not> nearEqual (cutoffHz a) (cutoffHz b) then [''cutoff''] else []) @
     (if \<not> nearEqual (resonanceQ a) (resonanceQ b) then [''resonance''] else []) @
     (if \<not> nearEqual (decayMs a) (decayMs b) then [''decay''] else [])"

definition validateRound :: "round \<Rightarrow> violation list \<times> (string \<rightharpoonup> nat) \<Rightarrow> violation list \<times> (string \<rightharpoonup> nat)" where
  \<comment> \<open>the body of \<open>for (const r of rounds)\<close>\<close>
  "validateRound r acc =
     (let (errs, cs) = acc;
          cs' = cs(changedKnob r \<mapsto> count_of cs (changedKnob r) + 1);
          a = takeA r; b = takeB r;
          errs1 = (if \<not> nearEqual (noteFreqHz a) (noteFreqHz b)
                   then errs @ [NoteFreqDiffers (index r + 1)] else errs);
          diffs = diffs_of a b;
          errs2 = (if length diffs \<noteq> 1 then errs1 @ [ExpectedOneChange (index r + 1) diffs]
                   else if diffs ! 0 \<noteq> changedKnob r
                     then errs1 @ [WrongKnob (index r + 1) (changedKnob r) (diffs ! 0)]
                   else errs1)
      in (errs2, cs'))"

definition checkKnob :: "(string \<rightharpoonup> nat) \<Rightarrow> knob \<Rightarrow> violation list \<Rightarrow> violation list" where
  "checkKnob cs k errs =
     (if count_of cs (knob_id k) < 3 then errs @ [KnobTooFew (knob_id k) (count_of cs (knob_id k))]
      else errs)"

definition validateRounds :: "round list \<Rightarrow> validation" where
  \<comment> \<open>\<open>Array.isArray(rounds)\<close> holds of every list\<close>
  "validateRounds rounds =
     (let errs0 = (if length rounds \<noteq> ROUNDS_PER_GAME then [WrongLength ROUNDS_PER_GAME] else []);
          cs0 = map_of (map (\<lambda>k. (knob_id k, 0)) KNOBS);
          (errs1, cs1) = foldl (\<lambda>acc r. validateRound r acc) (errs0, cs0) rounds;
          errs2 = foldl (\<lambda>errs k. checkKnob cs1 k errs) errs1 KNOBS
      in \<lparr>ok = (length errs2 = 0), errors = errs2, counts = cs1\<rparr>)"

text \<open>
  \<open>buildNewRounds\<close> stores the accepted batch in \<open>state.rounds\<close>; here it returns it, and
  \<open>startNewGame\<close> below stores it.  The debug log and \<open>bullfrogSelfTest\<close> only write to
  the console.
\<close>

function buildNewRounds_from :: "nat \<Rightarrow> draws \<Rightarrow> nat \<Rightarrow> error + (round list \<times> nat)" where
  "buildNewRounds_from attempt rs n =
     (if attempt < 50 then
        bindE (generateRounds rs n) (\<lambda>(candidate, n').
          if ok (validateRounds candidate) then Inr (candidate, n')
          else buildNewRounds_from (attempt + 1) rs n')
      else Inl GenerationFailed)"
  by pat_completeness auto
termination
  by (relation "measure (\<lambda>(attempt, rs, n). 50 - attempt)") auto

definition buildNewRounds :: "draws \<Rightarrow> nat \<Rightarrow> error + (round list \<times> nat)" where
  "buildNewRounds rs n = buildNewRounds_from 0 rs n"

section \<open>Audio engine: what gets scheduled\<close>

text \<open>
  The Web Audio graph is not modelled node by node.  A voice is the record of what
  \<open>scheduleVoice\<close> programs on its oscillator, filters and gain node; a take is the fade of
  its gain node and its voices.  Parameter automation is a list of the calls made on an
  \<open>AudioParam\<close>, in program order.
\<close>

datatype automation =
    CancelScheduledValues real
  | SetValueAtTime real real
  | LinearRampToValueAtTime real real
  | ExponentialRampToValueAtTime real real

record voice =
  oscFrequency :: "automation list"
  filterQ :: "automation list list"
  filterFrequency :: "automation list list"
  noteGain :: "automation list"
  oscStart :: real
  oscStop :: real

record take =
  takeGain :: "automation list"
  voices :: "voice list"

definition scheduleTakeFade :: "real \<Rightarrow> real \<Rightarrow> automation list" where
  "scheduleTakeFade startTime durationSeconds =
     (let fade = clamp TAKE_FADE_SECONDS 0.001 (durationSeconds / 2);
          endTime = startTime + durationSeconds;
          fadeOutStart = endTime - fade
      in [CancelScheduledValues startTime,
          SetValueAtTime 0.0 startTime,
          LinearRampToValueAtTime 1.0 (startTime + fade),
          SetValueAtTime 1.0 fadeOutStart,
          LinearRampToValueAtTime 0.0 endTime])"

definition scheduleVoice :: "params \<Rightarrow> real \<Rightarrow> real \<Rightarrow> voice" where
  \<comment> \<open>\<open>SETTINGS.FILTER_STACK_SIZE || 1\<close> is 1 when the setting is 0\<close>
  "scheduleVoice ps noteStartTime hardStopTime =
     (let stackSize = clamp (of_int \<lfloor>if FILTER_STACK_SIZE = 0 then 1 else FILTER_STACK_SIZE\<rfloor>) 1 4;
          qs = map (\<lambda>i. [SetValueAtTime (if i = 0 then resonanceQ ps else FILTER_STACK_Q2) noteStartTime])
                 [0 ..< nat \<lceil>stackSize\<rceil>];
          attack = AMP_ATTACK_SECONDS;
          release = AMP_RELEASE_SECONDS;
          decay = msToSec (decayMs ps);
          nearZero = 0.0001;
          gain = [SetValueAtTime 0.0 noteStartTime,
                  SetValueAtTime 0.0 noteStartTime,
                  LinearRampToValueAtTime VOICE_PEAK_GAIN (noteStartTime + attack),
                  LinearRampToValueAtTime nearZero (noteStartTime + attack + decay),
                  LinearRampToValueAtTime 0.0 (noteStartTime + attack + decay + release)];
          baseCutoff = clamp (cutoffHz ps) 20 20000;
          envPeak = clamp (baseCutoff + FILTER_ENV_AMOUNT_HZ) 20 20000;
          fs = map (\<lambda>q. [SetValueAtTime baseCutoff noteStartTime,
                          ExponentialRampToValueAtTime envPeak
                            (noteStartTime + FILTER_ENV_ATTACK_SECONDS),
                          ExponentialRampToValueAtTime baseCutoff
                            (noteStartTime + FILTER_ENV_ATTACK_SECONDS + decay)]) qs;
          naturalEndTime = noteStartTime + attack + decay + release;
          stopAt = max (noteStartTime + 0.01) (min naturalEndTime hardStopTime)
      in \<lparr>oscFrequency = [SetValueAtTime (noteFreqHz ps) noteStartTime],
          filterQ = qs, filterFrequency = fs, noteGain = gain,
          oscStart = noteStartTime, oscStop = stopAt\<rparr>)"

section \<open>Game state, timers and the playback scheduler\<close>

text \<open>
  The program runs on one event loop.  A state holds the fields of the object \<open>state\<close>,
  the part of the browser the handlers read or write (the table of pending timeouts, the
  next timer id, whether an option button is enabled, the phase shown) and the list of
  takes built so far, which stands for the audio graph.  Every handler runs to completion
  on a state; \<open>now\<close> is the reading of \<open>ctx.currentTime\<close> during the handler and \<open>rs\<close> the
  draws the handler reads from \<open>Math.random()\<close>.  Timer delays are recorded but not
  interpreted: a pending timeout may fire at any time, in any order.  The model starts
  after \<open>initAudio\<close> has succeeded, so \<open>state.engine\<close> is present throughout.
\<close>

datatype phase = PHASE_A | PHASE_GAP | PHASE_B | PHASE_ANSWER

datatype ui_action =
    SetPhase phase         \<comment> \<open>\<open>() => setPhase(p)\<close>\<close>
  | NextLoopCycle nat      \<comment> \<open>\<open>() => scheduleNextLoopCycle(token)\<close>\<close>

datatype callback =
    UiCallback nat ui_action   \<comment> \<open>the closure built by \<open>scheduleUi(token, _, fn)\<close>\<close>
  | Disconnect                 \<comment> \<open>\<open>takeGain.disconnect()\<close> or \<open>bus.disconnect()\<close>\<close>
  | MoveNext                   \<comment> \<open>the closure of \<open>state.moveNextTimer\<close>\<close>

record times =
  aStart :: real
  aEnd :: real
  bStart :: real
  bEnd :: real
  endAt :: real

record result =
  correctKnob :: string
  chosenKnob :: string
  isCorrect :: bool

record state =
  rounds :: "round list"
  answerOrder :: "nat \<rightharpoonup> string list"   \<comment> \<open>the property \<open>answerOrder\<close> of \<open>state.rounds[i]\<close>\<close>
  currentIndex :: nat
  score :: nat
  answered :: bool
  results :: "result list"
  playbackToken :: nat
  moveNextTimer :: "nat option"
  phaseTimers :: "nat list"
  roundOutput :: "unit option"              \<comment> \<open>whether a round bus is present\<close>
  loopNextAt :: real
  timers :: "nat \<rightharpoonup> real \<times> callback"       \<comment> \<open>pending timeouts: delay in ms and closure\<close>
  nextTimerId :: nat
  optionsEnabled :: bool                    \<comment> \<open>some option button exists and is enabled\<close>
  loopStatus :: phase                       \<comment> \<open>what \<open>setPhase\<close> last displayed\<close>
  audio :: "take list"                      \<comment> \<open>the takes built by \<open>playTake\<close>, oldest first\<close>
  failures :: "error list"                  \<comment> \<open>exceptions that ended a handler early\<close>

definition initial :: state where
  \<comment> \<open>the literal \<open>state\<close> and the last lines of the script; timer ids start at 1\<close>
  "initial = \<lparr>rounds = [], answerOrder = Map.empty, currentIndex = 0, score = 0,
     answered = False, results = [], playbackToken = 0, moveNextTimer = None,
     phaseTimers = [], roundOutput = None, loopNextAt = 0, timers = Map.empty,
     nextTimerId = 1, optionsEnabled = False, loopStatus = PHASE_A, audio = [],
     failures = []\<rparr>"

definition setTimeout :: "callback \<Rightarrow> real \<Rightarrow> state \<Rightarrow> nat \<times> state" where
  "setTimeout cb delayMs s =
     (nextTimerId s,
      s\<lparr>timers := (timers s)(nextTimerId s \<mapsto> (delayMs, cb)),
        nextTimerId := nextTimerId s + 1\<rparr>)"

definition clearTimeout :: "nat \<Rightarrow> state \<Rightarrow> state" where
  "clearTimeout t s = s\<lparr>timers := (timers s)(t := None)\<rparr>"

definition clearPhaseTimers :: "state \<Rightarrow> state" where
  "clearPhaseTimers s = (foldl (\<lambda>s' t. clearTimeout t s') s (phaseTimers s))\<lparr>phaseTimers := []\<rparr>"

definition clearTimers :: "state \<Rightarrow> state" where
  \<comment> \<open>\<open>if (state.moveNextTimer)\<close> is false for \<open>null\<close> and for the number 0\<close>
  "clearTimers s =
     clearPhaseTimers
       (case moveNextTimer s of
          None \<Rightarrow> s
        | Some t \<Rightarrow> if t = 0 then s else (clearTimeout t s)\<lparr>moveNextTimer := None\<rparr>)"

definition scheduleUi :: "nat \<Rightarrow> real \<Rightarrow> ui_action \<Rightarrow> state \<Rightarrow> state" where
  "scheduleUi token delaySeconds fn s =
     (let (t, s') = setTimeout (UiCallback token fn) (max 0 (delaySeconds * 1000)) s
      in s'\<lparr>phaseTimers := phaseTimers s' @ [t]\<rparr>)"

definition setPhase :: "phase \<Rightarrow> state \<Rightarrow> state" where
  "setPhase p s = s\<lparr>loopStatus := p\<rparr>"

definition stopRoundAudio :: "real \<Rightarrow> state \<Rightarrow> state" where
  \<comment> \<open>the fade of the bus gain is not recorded; the later disconnect is a timeout\<close>
  "stopRoundAudio now s =
     (case roundOutput s of
        None \<Rightarrow> s
      | Some bus \<Rightarrow>
          (let fade = 0.03;
               disconnectMs = max 0 ((now + fade + 0.03 - now) * 1000)
           in snd (setTimeout Disconnect disconnectMs (s\<lparr>roundOutput := None\<rparr>))))"

definition playTake :: "params \<Rightarrow> real \<Rightarrow> real \<Rightarrow> state \<Rightarrow> real \<times> state" where
  "playTake ps when' now s =
     (let fadeEnv = scheduleTakeFade when' TAKE_SECONDS;
          hardStopTime = when' + TAKE_SECONDS + TAKE_CLEANUP_EXTRA_SECONDS;
          vs = map (\<lambda>t. scheduleVoice ps (when' + t) hardStopTime) NOTE_TIMES_SECONDS;
          cleanupAt = hardStopTime;
          cleanupMs = max 0 ((cleanupAt - now) * 1000);
          s' = snd (setTimeout Disconnect cleanupMs s)
      in (when' + TAKE_SECONDS, s'\<lparr>audio := audio s' @ [\<lparr>takeGain = fadeEnv, voices = vs\<rparr>]\<rparr>))"

definition playRound :: "round \<Rightarrow> real \<Rightarrow> real \<Rightarrow> state \<Rightarrow> times \<times> state" where
  "playRound r when' now s =
     (let a0 = when';
          (a1, s1) = playTake (takeA r) a0 now s;
          b0 = a1 + SILENCE_GAP_SECONDS;
          (b1, s2) = playTake (takeB r) b0 now s1
      in (\<lparr>aStart = a0, aEnd = a1, bStart = b0, bEnd = b1, endAt = b1\<rparr>, s2))"

definition scheduleNextLoopCycle :: "nat \<Rightarrow> real \<Rightarrow> state \<Rightarrow> state" where
  \<comment> \<open>\<open>state.rounds[state.currentIndex]\<close> out of range is \<open>undefined\<close>, and
      \<open>playRound\<close> throws on its first read of \<open>round.takeA\<close>\<close>
  "scheduleNextLoopCycle token now s =
     (if token \<noteq> playbackToken s then s
      else if answered s then s
      else if roundOutput s = None then s
      else if \<not> currentIndex s < length (rounds s) then s\<lparr>failures := failures s @ [UndefinedValue]\<rparr>
      else
        (let r = rounds s ! currentIndex s;
             at' = (if loopNextAt s < now + 0.005 then now + 0.005 else loopNextAt s);
             (ts, s1) = playRound r at' now s;
             s2 = scheduleUi token (aStart ts - now) (SetPhase PHASE_A) s1;
             s3 = scheduleUi token (aEnd ts - now) (SetPhase PHASE_GAP) s2;
             s4 = scheduleUi token (bStart ts - now) (SetPhase PHASE_B) s3;
             s5 = scheduleUi token (endAt ts - now) (SetPhase PHASE_GAP) s4;
             s6 = s5\<lparr>loopNextAt := endAt ts + LOOP_CYCLE_PAUSE_SECONDS\<rparr>;
             callAt = loopNextAt s6 - SCHEDULING_LEAD_SECONDS
         in scheduleUi token (callAt - now) (NextLoopCycle token) s6))"

definition startRound :: "nat \<Rightarrow> real \<Rightarrow> draws \<Rightarrow> state \<Rightarrow> state" where
  \<comment> \<open>with \<open>state.rounds[index]\<close> undefined the assignment to \<open>round.answerOrder\<close> throws\<close>
  "startRound i now rs s =
     (let s1 = stopRoundAudio now (clearTimers s);
          s2 = s1\<lparr>playbackToken := playbackToken s1 + 1\<rparr>;
          token = playbackToken s2;
          s3 = s2\<lparr>currentIndex := i, answered := False\<rparr>
      in case shuffle (map knob_id KNOBS) rs 0 of
           Inl e \<Rightarrow> s3\<lparr>failures := failures s3 @ [e]\<rparr>
         | Inr (order, n) \<Rightarrow>
             if \<not> i < length (rounds s3) then s3\<lparr>failures := failures s3 @ [UndefinedValue]\<rparr>
             else
               (let s4 = s3\<lparr>answerOrder := (answerOrder s3)(i \<mapsto> order), optionsEnabled := True\<rparr>;
                    s5 = setPhase PHASE_GAP s4;
                    startAt = now + SCHEDULING_LEAD_SECONDS;
                    s6 = s5\<lparr>roundOutput := Some (), loopNextAt := startAt\<rparr>
                in scheduleNextLoopCycle token now s6))"

definition startNewGame :: "real \<Rightarrow> draws \<Rightarrow> state \<Rightarrow> state" where
  \<comment> \<open>the draws of \<open>buildNewRounds\<close> are read from \<open>rs\<close>, those of \<open>startRound\<close> after them\<close>
  "startNewGame now rs s =
     (let s1 = stopRoundAudio now (clearTimers s)
      in case buildNewRounds rs 0 of
           Inl e \<Rightarrow> s1\<lparr>failures := failures s1 @ [e]\<rparr>
         | Inr (batch, n) \<Rightarrow>
             startRound 0 now (\<lambda>k. rs (n + k))
               (s1\<lparr>rounds := batch, currentIndex := 0, score := 0, answered := False,
                   results := []\<rparr>))"

definition finishGame :: "real \<Rightarrow> state \<Rightarrow> state" where
  "finishGame now s =
     setPhase PHASE_ANSWER ((stopRoundAudio now (clearTimers s))\<lparr>optionsEnabled := False\<rparr>)"

definition handleAnswer :: "string \<Rightarrow> real \<Rightarrow> state \<Rightarrow> state" where
  "handleAnswer knobId now s =
     (if answered s then s
      else if \<not> optionsEnabled s then s
      else
        (let s1 = setPhase PHASE_ANSWER
                    (stopRoundAudio now (clearPhaseTimers (s\<lparr>answered := True\<rparr>)))
         in if \<not> currentIndex s1 < length (rounds s1)
            then s1\<lparr>failures := failures s1 @ [UndefinedValue]\<rparr>
            else
              (let r = rounds s1 ! currentIndex s1;
                   correct = changedKnob r;
                   right = (knobId = correct);
                   s2 = s1\<lparr>results := results s1 @
                            [\<lparr>correctKnob = correct, chosenKnob = knobId, isCorrect = right\<rparr>],
                          score := (if right then score s1 + 1 else score s1),
                          optionsEnabled := False\<rparr>;
                   (t, s3) = setTimeout MoveNext FEEDBACK_ADVANCE_MS s2
               in s3\<lparr>moveNextTimer := Some t\<rparr>)))"

definition run_callback :: "callback \<Rightarrow> real \<Rightarrow> draws \<Rightarrow> state \<Rightarrow> state" where
  "run_callback cb now rs s =
     (case cb of
        UiCallback token fn \<Rightarrow>
          if token \<noteq> playbackToken s then s
          else (case fn of
                  SetPhase p \<Rightarrow> setPhase p s
                | NextLoopCycle token' \<Rightarrow> scheduleNextLoopCycle token' now s)
      | Disconnect \<Rightarrow> s
      | MoveNext \<Rightarrow>
          if currentIndex s + 1 \<ge> ROUNDS_PER_GAME then finishGame now s
          else startRound (currentIndex s + 1) now rs s)"

definition fire :: "nat \<Rightarrow> real \<Rightarrow> draws \<Rightarrow> state \<Rightarrow> state" where
  \<comment> \<open>a pending timeout fires: it leaves the table, then its closure runs\<close>
  "fire t now rs s =
     (case timers s t of
        None \<Rightarrow> s
      | Some (delayMs, cb) \<Rightarrow> run_callback cb now rs (s\<lparr>timers := (timers s)(t := None)\<rparr>))"

datatype event =
    NewGame real draws           \<comment> \<open>start or restart button: \<open>startNewGame()\<close>\<close>
  | Answer string real           \<comment> \<open>option button or key 1-3: \<open>handleAnswer(knobId)\<close>\<close>
  | Timeout nat real draws       \<comment> \<open>the timeout with this id fires\<close>

fun step :: "event \<Rightarrow> state \<Rightarrow> state" where
  "step (NewGame now rs) s = startNewGame now rs s"
| "step (Answer knobId now) s = handleAnswer knobId now s"
| "step (Timeout t now rs) s = fire t now rs s"

inductive reachable :: "state \<Rightarrow> bool" where
  reachable_initial: "reachable initial"
| reachable_step: "reachable s \<Longrightarrow> reachable (step e s)"

definition run :: "event list \<Rightarrow> state \<Rightarrow> state" where
  "run es s = foldl (\<lambda>s' e. step e s') s es"

fun quiet :: "event list \<Rightarrow> state \<Rightarrow> bool" where
  \<comment> \<open>a run of events in which no round starts and no take is built\<close>
  "quiet [] s = True"
| "quiet (e # es) s \<longleftrightarrow>
     playbackToken (step e s) = playbackToken s \<and> audio (step e s) = audio s \<and>
     quiet es (step e s)"

section \<open>Auxiliary notions for the proofs\<close>

text \<open>
  The predicates below are not part of the program: \<open>perturbed\<close> lists the six outcomes
  of the perturbation chain with the settings written out, \<open>base_ranges\<close> the ranges of
  the four base draws, and \<open>round_errs\<close> the violations the validator appends for one
  round.  \<open>zero_draws\<close> and \<open>half_draws\<close> are two concrete random sequences, and
  \<open>candidate\<close> names the batch of a given attempt of the retry loop.  For the scheduler,
  \<open>ui_pending\<close> and \<open>timers_inv\<close> speak about the pending closures of \<open>scheduleUi\<close>,
  \<open>take_at\<close> is the take \<open>playTake\<close> builds at a start time, \<open>loop_runs\<close> says that
  \<open>scheduleNextLoopCycle\<close> passes its guards, and \<open>demo_ready\<close>, \<open>demo_started\<close> and
  \<open>demo_answered\<close> are the states of one concrete game.
\<close>

definition knob_ids :: "string list" where
  "knob_ids = map knob_id KNOBS"

definition perturbed :: "string \<Rightarrow> params \<Rightarrow> params \<Rightarrow> bool" where
  "perturbed ck a b \<longleftrightarrow>
     (ck = ''cutoff'' \<and> b = a\<lparr>cutoffHz := cutoffHz a * 2.6\<rparr>) \<or>
     (ck = ''cutoff'' \<and> b = a\<lparr>cutoffHz := cutoffHz a * 0.38\<rparr>) \<or>
     (ck = ''resonance'' \<and> b = a\<lparr>resonanceQ := min 12 (max 0.5 (resonanceQ a - 2))\<rparr>) \<or>
     (ck = ''resonance'' \<and> b = a\<lparr>resonanceQ := min 12 (max 0.5 (resonanceQ a + 2))\<rparr>) \<or>
     (ck = ''decay'' \<and> b = a\<lparr>decayMs := min 2000 (max 80 (decayMs a * 1.6))\<rparr>) \<or>
     (ck = ''decay'' \<and> b = a\<lparr>decayMs := min 2000 (max 80 (decayMs a * 0.6))\<rparr>)"

definition base_ranges :: "params \<Rightarrow> bool" where
  "base_ranges a \<longleftrightarrow>
      250 \<le> cutoffHz a \<and> cutoffHz a \<le> 2500 \<and>
      0.5 \<le> resonanceQ a \<and> resonanceQ a < 8 \<and>
      120 \<le> decayMs a \<and> decayMs a < 1200 \<and>
      noteFreqHz a \<in> set NOTE_FREQUENCIES_HZ"

definition generated_round :: "round \<Rightarrow> bool" where
  "generated_round r \<longleftrightarrow> base_ranges (takeA r) \<and> perturbed (changedKnob r) (takeA r) (takeB r)"

definition round_errs :: "round \<Rightarrow> violation list" where
  "round_errs r =
     (if \<not> nearEqual (noteFreqHz (takeA r)) (noteFreqHz (takeB r))
      then [NoteFreqDiffers (index r + 1)] else []) @
     (if length (diffs_of (takeA r) (takeB r)) \<noteq> 1
      then [ExpectedOneChange (index r + 1) (diffs_of (takeA r) (takeB r))]
      else if diffs_of (takeA r) (takeB r) ! 0 \<noteq> changedKnob r
        then [WrongKnob (index r + 1) (changedKnob r) (diffs_of (takeA r) (takeB r) ! 0)]
      else [])"

definition zero_draws :: draws where "zero_draws = (\<lambda>_. 0)"
definition half_draws :: draws where "half_draws = (\<lambda>_. 1 / 2)"

definition candidate :: "draws \<Rightarrow> nat \<Rightarrow> nat \<Rightarrow> round list" where
  \<comment> \<open>the batch of the \<open>k\<close>-th attempt when the first one starts reading at position \<open>n\<close>:
      every call of the generator reads 60 draws\<close>
  "candidate rs n k = fst (projr (generateRounds rs (n + 60 * k)))"

definition ui_pending :: "state \<Rightarrow> bool" where
  "ui_pending s \<longleftrightarrow> (\<exists>t d tok a. timers s t = Some (d, UiCallback tok a))"

definition timers_inv :: "state \<Rightarrow> bool" where
  "timers_inv s \<longleftrightarrow>
     (\<forall>t d tok a. timers s t = Some (d, UiCallback tok a) \<longrightarrow>
        tok = playbackToken s \<and> \<not> answered s \<and> t \<in> set (phaseTimers s) \<and>
        (\<forall>tok'. a = NextLoopCycle tok' \<longrightarrow> tok' = tok))"

definition take_at :: "params \<Rightarrow> real \<Rightarrow> take" where
  "take_at ps w =
     \<lparr>takeGain = scheduleTakeFade w TAKE_SECONDS,
      voices = map (\<lambda>t. scheduleVoice ps (w + t) (w + TAKE_SECONDS + TAKE_CLEANUP_EXTRA_SECONDS))
                 NOTE_TIMES_SECONDS\<rparr>"

definition loop_runs :: "nat \<Rightarrow> state \<Rightarrow> bool" where
  "loop_runs token s \<longleftrightarrow>
     token = playbackToken s \<and> \<not> answered s \<and> roundOutput s \<noteq> None \<and>
     currentIndex s < length (rounds s)"

definition cycle_start :: "real \<Rightarrow> state \<Rightarrow> real" where
  \<comment> \<open>the local \<open>at\<close> of \<open>scheduleNextLoopCycle\<close>\<close>
  "cycle_start now s = (if loopNextAt s < now + 0.005 then now + 0.005 else loopNextAt s)"

definition cycle_times :: "real \<Rightarrow> state \<Rightarrow> times" where
  \<comment> \<open>the local \<open>times\<close> of \<open>scheduleNextLoopCycle\<close>\<close>
  "cycle_times now s = fst (playRound (rounds s ! currentIndex s) (cycle_start now s) now s)"

definition demo_started :: state where
  "demo_started = startNewGame 0 half_draws initial"

definition demo_answered :: state where
  "demo_answered = handleAnswer ''cutoff'' 1 demo_started"

definition demo_ready :: state where
  "demo_ready = initial\<lparr>rounds := candidate half_draws 0 0,
     answerOrder := [0 \<mapsto> [''cutoff'', ''decay'', ''resonance'']],
     playbackToken := 1, roundOutput := Some (), loopNextAt := 0.05,
     optionsEnabled := True, loopStatus := PHASE_GAP\<rparr>"

section \<open>Generator: every call returns a batch\<close>

lemma bindE_simps [simp]:
  "bindE (Inl e) f = Inl e" "bindE (Inr x) f = f x"
  by (simp_all add: bindE_def)

lemma bindE_Inr_iff: "bindE m f = Inr y \<longleftrightarrow> (\<exists>x. m = Inr x \<and> f x = Inr y)"
  by (cases m) simp_all

lemma draw_index:
  assumes "valid_draws rs" "0 < m"
  shows "0 \<le> \<lfloor>rs n * real m\<rfloor>" "nat \<lfloor>rs n * real m\<rfloor> < m"
proof -
  from assms have u: "0 \<le> rs n" "rs n < 1" by (simp_all add: valid_draws_def)
  then show "0 \<le> \<lfloor>rs n * real m\<rfloor>" by simp
  from u assms(2) have "rs n * real m < real m" by simp
  then have "\<lfloor>rs n * real m\<rfloor> < int m" by (simp add: floor_less_iff)
  then show "nat \<lfloor>rs n * real m\<rfloor> < m" using \<open>0 \<le> \<lfloor>rs n * real m\<rfloor>\<close> by linarith
qed

lemma pick_Inr:
  assumes "valid_draws rs" "arr \<noteq> []"
  shows "pick arr rs n = Inr (arr ! nat \<lfloor>rs n * real (length arr)\<rfloor>, Suc n)"
    and "nat \<lfloor>rs n * real (length arr)\<rfloor> < length arr"
  using draw_index[OF assms(1), of "length arr" n] assms(2)
  by (simp_all add: pick_def Let_def)

lemma shuffle_loop_Inr:
  assumes "valid_draws rs"
  shows "k < length arr \<Longrightarrow>
    \<exists>arr'. shuffle_loop rs k arr n = Inr (arr', n + k) \<and> mset arr' = mset arr"
proof (induction k arbitrary: arr n)
  case 0
  then show ?case by simp
next
  case (Suc k)
  let ?j = "nat \<lfloor>rs n * real (Suc k + 1)\<rfloor>"
  from draw_index[OF assms, of "Suc k + 1" n]
  have j: "0 \<le> \<lfloor>rs n * real (Suc k + 1)\<rfloor>" "?j < Suc k + 1" by simp_all
  with Suc.prems have jl: "?j < length arr" by linarith
  let ?arr = "arr[Suc k := arr ! ?j, ?j := arr ! Suc k]"
  have m: "mset ?arr = mset arr"
    using Suc.prems jl by (simp add: mset_swap)
  have "k < length ?arr" using Suc.prems by simp
  from Suc.IH[OF this, of "Suc n"] obtain arr' where
    "shuffle_loop rs k ?arr (Suc n) = Inr (arr', Suc n + k)" "mset arr' = mset ?arr" by blast
  with m j jl Suc.prems show ?case by (simp add: Let_def)
qed

lemma shuffle_Inr:
  assumes "valid_draws rs" "list \<noteq> []"
  shows "\<exists>arr'. shuffle list rs n = Inr (arr', n + (length list - 1)) \<and> mset arr' = mset list"
  unfolding shuffle_def using shuffle_loop_Inr[OF assms(1), of "length list - 1" list n] assms(2)
  by simp

lemma powr_unit:
  assumes "0 \<le> (u::real)" "u < 1" "0 < a"
  shows "0 \<le> u powr a" "u powr a \<le> 1"
proof -
  show "0 \<le> u powr a" by simp
  have "u powr a \<le> 1 powr a" using assms by (intro powr_mono2) simp_all
  then show "u powr a \<le> 1" by simp
qed

lemma randLogFloatSkew_cutoff:
  assumes "valid_draws rs"
  shows "\<exists>c. randLogFloatSkew CUTOFF_BASE_HZ_MIN CUTOFF_BASE_HZ_MAX CUTOFF_BASE_LOG_SKEW rs n = (c, Suc n)
     \<and> 250 \<le> c \<and> c \<le> 2500"
proof -
  from assms have u: "0 \<le> rs n" "rs n < 1" by (simp_all add: valid_draws_def)
  let ?v = "rs n powr 1.8"
  have v: "0 \<le> ?v" "?v \<le> 1" using powr_unit[OF u, of "1.8"] by simp_all
  have l: "0 < ln (10::real)" by simp
  have "ln 10 * ?v \<le> ln (10::real)" using v l by simp
  then have "exp (ln 10 * ?v) \<le> exp (ln (10::real))" by (simp only: exp_le_cancel_iff)
  then have hi: "exp (ln 10 * ?v) \<le> (10::real)" by simp
  have "0 \<le> ln 10 * ?v" using v l by simp
  then have lo: "1 \<le> exp (ln 10 * ?v)" by simp
  show ?thesis using lo hi
    by (simp add: randLogFloatSkew_def Let_def CUTOFF_BASE_HZ_MIN_def CUTOFF_BASE_HZ_MAX_def CUTOFF_BASE_LOG_SKEW_def)
qed

lemma drawBase_Inr:
  assumes "valid_draws rs"
  shows "\<exists>b. drawBase rs n = Inr (b, n + 4) \<and> base_ranges b"
proof -
  from randLogFloatSkew_cutoff[OF assms, of n] obtain c where
    c: "randLogFloatSkew CUTOFF_BASE_HZ_MIN CUTOFF_BASE_HZ_MAX CUTOFF_BASE_LOG_SKEW rs n = (c, Suc n)"
       "250 \<le> c" "c \<le> 2500" by blast
  from assms have u1: "0 \<le> rs (Suc n)" "rs (Suc n) < 1"
    and u2: "0 \<le> rs (Suc (Suc n))" "rs (Suc (Suc n)) < 1"
    by (simp_all add: valid_draws_def)
  have ne: "NOTE_FREQUENCIES_HZ \<noteq> []" by (simp add: NOTE_FREQUENCIES_HZ_def)
  note p = pick_Inr[OF assms ne, of "Suc (Suc (Suc n))"]
  have "NOTE_FREQUENCIES_HZ ! nat \<lfloor>rs (Suc (Suc (Suc n))) * real (length NOTE_FREQUENCIES_HZ)\<rfloor>
      \<in> set NOTE_FREQUENCIES_HZ"
    using p(2) by (rule nth_mem)
  then show ?thesis
    using c u1 u2 p(1)
    by (simp add: drawBase_def randFloat_def RESONANCE_BASE_Q_MIN_def RESONANCE_BASE_Q_MAX_def
        DECAY_BASE_MS_MIN_def DECAY_BASE_MS_MAX_def base_ranges_def)
qed

lemma pick_pair:
  assumes "valid_draws rs"
  shows "pick [x, y] rs n = Inr (x, Suc n) \<or> pick [x, y] rs n = Inr (y, Suc n)"
proof -
  define i where "i = nat \<lfloor>rs n * real (length [x, y])\<rfloor>"
  have ne: "[x, y] \<noteq> []" by simp
  from pick_Inr[OF assms ne, of n]
  have p: "pick [x, y] rs n = Inr ([x, y] ! i, Suc n)" "i < length [x, y]"
    unfolding i_def by blast+
  from p(2) have "i = 0 \<or> i = 1" by auto
  then show ?thesis using p(1) by auto
qed

lemma applyChange_Inr:
  assumes "valid_draws rs" "ck \<in> set knob_ids"
  shows "\<exists>b. applyChange ck a a rs n = Inr (b, Suc n) \<and> perturbed ck a b"
proof -
  from assms(2) consider "ck = ''cutoff''" | "ck = ''resonance''" | "ck = ''decay''"
    by (auto simp: knob_ids_def KNOBS_def)
  then show ?thesis
  proof cases
    case 1
    then show ?thesis using pick_pair[OF assms(1), of "2.6::real" "0.38::real" n]
      by (auto simp: applyChange_def perturbed_def CUTOFF_CHANGE_MULTIPLIERS_def)
  next
    case 2
    then show ?thesis
      by (simp add: applyChange_def perturbed_def clamp_def RESONANCE_CHANGE_DELTA_Q_def
          RESONANCE_Q_MIN_def RESONANCE_Q_MAX_def)
  next
    case 3
    then show ?thesis using pick_pair[OF assms(1), of "1.6::real" "0.6::real" n]
      by (auto simp: applyChange_def perturbed_def DECAY_CHANGE_MULTIPLIERS_def clamp_def
          DECAY_MS_MIN_def DECAY_MS_MAX_def)
  qed
qed

lemma generateRound_Inr:
  assumes "valid_draws rs" "i < length cks" "cks ! i \<in> set knob_ids"
  shows "\<exists>r. generateRound cks i rs n = Inr (r, n + 5) \<and> index r = i \<and>
     changedKnob r = cks ! i \<and> generated_round r"
proof -
  from drawBase_Inr[OF assms(1), of n] obtain a where
    a: "drawBase rs n = Inr (a, n + 4)" "base_ranges a" by blast
  from applyChange_Inr[OF assms(1,3), of a "n + 4"] obtain b where
    b: "applyChange (cks ! i) a a rs (n + 4) = Inr (b, Suc (n + 4))" "perturbed (cks ! i) a b"
    by blast
  let ?r = "\<lparr>index = i, changedKnob = cks ! i, takeA = a, takeB = b\<rparr>"
  have "generateRound cks i rs n = Inr (?r, n + 5)"
    using a(1) b(1) assms(2) by (simp add: generateRound_def)
  moreover have "generated_round ?r"
    unfolding generated_round_def using a(2) b(2) by simp
  ultimately show ?thesis by simp
qed

lemma generateRounds_loop_Inr:
  assumes "valid_draws rs" "set cks \<subseteq> set knob_ids"
  shows "\<forall>i \<in> set is. i < length cks \<Longrightarrow>
    \<exists>batch. generateRounds_loop cks is rs n = Inr (batch, n + 5 * length is) \<and>
       map changedKnob batch = map ((!) cks) is \<and> map index batch = is \<and>
       (\<forall>r \<in> set batch. generated_round r)"
proof (induction "is" arbitrary: n)
  case Nil
  then show ?case by simp
next
  case (Cons i "is")
  then have i: "i < length cks" by simp
  then have "cks ! i \<in> set knob_ids" using assms(2) nth_mem by blast
  from generateRound_Inr[OF assms(1) i this, of n] obtain r where
    r: "generateRound cks i rs n = Inr (r, n + 5)" "index r = i" "changedKnob r = cks ! i"
       "generated_round r" by blast
  from Cons.prems have "\<forall>i \<in> set is. i < length cks" by simp
  from Cons.IH[OF this, of "n + 5"] obtain batch where
    rs: "generateRounds_loop cks is rs (n + 5) = Inr (batch, n + 5 + 5 * length is)"
       "map changedKnob batch = map ((!) cks) is" "map index batch = is"
       "\<forall>r \<in> set batch. generated_round r" by blast
  show ?case using r rs by (simp add: add.assoc)
qed

lemma generateRounds_shape:
  assumes "valid_draws rs"
  shows "\<exists>batch k. generateRounds rs n = Inr (batch, n + 60) \<and> k \<in> set KNOBS \<and>
     pick KNOBS rs n = Inr (k, Suc n) \<and>
     shuffle (knobBag @ [knob_id k]) rs (Suc n) = Inr (map changedKnob batch, n + 10) \<and>
     length batch = 10 \<and> map index batch = [0 ..< 10] \<and>
     mset (map changedKnob batch) = mset (knobBag @ [knob_id k]) \<and>
     (\<forall>r \<in> set batch. generated_round r)"
proof -
  have ne: "KNOBS \<noteq> []" by (simp add: KNOBS_def)
  note p = pick_Inr[OF assms ne, of n]
  let ?k = "KNOBS ! nat \<lfloor>rs n * real (length KNOBS)\<rfloor>"
  have k: "?k \<in> set KNOBS" using p(2) by (rule nth_mem)
  let ?bag = "knobBag @ [knob_id ?k]"
  have len: "length ?bag = 10" by (simp add: knobBag_def KNOBS_def)
  then have "?bag \<noteq> []" by auto
  from shuffle_Inr[OF assms this, of "Suc n"] len obtain cks where
    cks: "shuffle ?bag rs (Suc n) = Inr (cks, n + 10)" "mset cks = mset ?bag" by auto
  from cks(2) have l: "length cks = 10" using len by (metis size_mset)
  have "set cks = set ?bag" using cks(2) by (metis set_mset_mset)
  moreover have "set ?bag \<subseteq> set knob_ids" using k by (auto simp: knobBag_def knob_ids_def)
  ultimately have sub: "set cks \<subseteq> set knob_ids" by simp
  have "\<forall>i \<in> set [0 ..< ROUNDS_PER_GAME]. i < length cks" using l by (simp add: ROUNDS_PER_GAME_def)
  from generateRounds_loop_Inr[OF assms sub this, of "n + 10"] obtain batch where
    r: "generateRounds_loop cks [0 ..< ROUNDS_PER_GAME] rs (n + 10) = Inr (batch, n + 10 + 5 * length [0 ..< ROUNDS_PER_GAME])"
       "map changedKnob batch = map ((!) cks) [0 ..< ROUNDS_PER_GAME]"
       "map index batch = [0 ..< ROUNDS_PER_GAME]"
       "\<forall>r \<in> set batch. generated_round r" by blast
  have "map ((!) cks) [0 ..< ROUNDS_PER_GAME] = cks" using l map_nth[of cks] by (simp add: ROUNDS_PER_GAME_def)
  with r(2) have m: "map changedKnob batch = cks" by simp
  then have lr: "length batch = 10" using l by (metis length_map)
  have g: "generateRounds rs n = Inr (batch, n + 60)"
    using p(1) cks(1) r(1) by (simp add: generateRounds_def ROUNDS_PER_GAME_def)
  have sh: "shuffle ?bag rs (Suc n) = Inr (map changedKnob batch, n + 10)"
    using cks(1) m by simp
  have ms: "mset (map changedKnob batch) = mset ?bag" using cks(2) m by simp
  have ix: "map index batch = [0 ..< 10]" using r(3) by (simp add: ROUNDS_PER_GAME_def)
  from g k p(1) sh lr ix ms r(4) show ?thesis by blast
qed

lemma generateRounds_Inr:
  assumes "valid_draws rs"
  shows "\<exists>batch k. generateRounds rs n = Inr (batch, n + 60) \<and> k \<in> set KNOBS \<and>
     length batch = 10 \<and> map index batch = [0 ..< 10] \<and>
     mset (map changedKnob batch) = mset (knobBag @ [knob_id k]) \<and>
     (\<forall>r \<in> set batch. generated_round r)"
  using generateRounds_shape[OF assms, of n] by blast

lemma generated_round_noteFreq:
  assumes "generated_round r"
  shows "noteFreqHz (takeB r) = noteFreqHz (takeA r)"
    "noteFreqHz (takeA r) \<in> set NOTE_FREQUENCIES_HZ"
  using assms unfolding generated_round_def perturbed_def base_ranges_def
  by (elim conjE disjE; simp)+

lemma generated_round_ranges:
  assumes "generated_round r"
  shows "1/2 \<le> resonanceQ (takeB r) \<and> resonanceQ (takeB r) \<le> 12 \<and>
    80 \<le> decayMs (takeB r) \<and> decayMs (takeB r) \<le> 2000 \<and>
    95 \<le> cutoffHz (takeB r) \<and> cutoffHz (takeB r) \<le> 6500"
  using assms unfolding generated_round_def perturbed_def base_ranges_def
  by (elim conjE disjE; simp)

lemma generated_round_diffs:
  assumes "generated_round r"
  shows "diffs_of (takeA r) (takeB r) = [changedKnob r] \<or>
     (changedKnob r = ''resonance'' \<and> resonanceQ (takeA r) \<le> RESONANCE_Q_MIN + PARAM_EPS \<and>
      resonanceQ (takeB r) = RESONANCE_Q_MIN \<and> diffs_of (takeA r) (takeB r) = [])"
  using assms unfolding generated_round_def perturbed_def base_ranges_def
  apply (elim conjE disjE)
  subgoal by (simp add: diffs_of_def nearEqual_def PARAM_EPS_def)
  subgoal by (simp add: diffs_of_def nearEqual_def PARAM_EPS_def)
  subgoal by (simp add: diffs_of_def nearEqual_def PARAM_EPS_def RESONANCE_Q_MIN_def) (auto simp: max_def min_def abs_if)
  subgoal by (simp add: diffs_of_def nearEqual_def PARAM_EPS_def RESONANCE_Q_MIN_def)
  subgoal by (simp add: diffs_of_def nearEqual_def PARAM_EPS_def)
  subgoal by (simp add: diffs_of_def nearEqual_def PARAM_EPS_def)
  done

section \<open>Validator: what acceptance means\<close>

lemma validateRound_eq:
  "validateRound r (errs, cs) =
     (errs @ round_errs r, cs(changedKnob r \<mapsto> count_of cs (changedKnob r) + 1))"
  by (simp add: validateRound_def round_errs_def Let_def)

lemma round_errs_Nil_iff:
  "round_errs r = [] \<longleftrightarrow>
     nearEqual (noteFreqHz (takeA r)) (noteFreqHz (takeB r)) \<and>
     diffs_of (takeA r) (takeB r) = [changedKnob r]"
proof -
  have "length xs = 1 \<and> xs ! 0 = c \<longleftrightarrow> xs = [c]" for xs :: "string list" and c
    by (cases xs) auto
  from this[of "diffs_of (takeA r) (takeB r)" "changedKnob r"] show ?thesis
    by (auto simp: round_errs_def)
qed

lemma validate_loop:
  "\<exists>cs'. foldl (\<lambda>acc r. validateRound r acc) (errs, cs) batch =
       (errs @ concat (map round_errs batch), cs') \<and>
     (\<forall>k. count_of cs' k = count_of cs k + count_list (map changedKnob batch) k)"
proof (induction batch arbitrary: errs cs)
  case Nil
  then show ?case by simp
next
  case (Cons r batch)
  let ?cs = "cs(changedKnob r \<mapsto> count_of cs (changedKnob r) + 1)"
  from Cons.IH[of "errs @ round_errs r" ?cs] obtain cs' where
    1: "foldl (\<lambda>acc r. validateRound r acc) (errs @ round_errs r, ?cs) batch =
       ((errs @ round_errs r) @ concat (map round_errs batch), cs')"
    and 2: "\<forall>k. count_of cs' k = count_of ?cs k + count_list (map changedKnob batch) k"
    by blast
  have "count_of ?cs k = count_of cs k + (if changedKnob r = k then 1 else 0)" for k
    by (simp add: count_of_def)
  with 2 have "\<forall>k. count_of cs' k = count_of cs k + count_list (map changedKnob (r # batch)) k"
    by simp
  with 1 show ?case by (simp add: validateRound_eq)
qed

lemma checkKnob_loop:
  "foldl (\<lambda>errs k. checkKnob cs k errs) errs ks =
     errs @ concat (map (\<lambda>k. checkKnob cs k []) ks)"
  by (induction ks arbitrary: errs) (simp_all add: checkKnob_def)

lemma validateRounds_ok_iff:
  "ok (validateRounds batch) \<longleftrightarrow>
     length batch = ROUNDS_PER_GAME \<and>
     (\<forall>r \<in> set batch. nearEqual (noteFreqHz (takeA r)) (noteFreqHz (takeB r)) \<and>
        diffs_of (takeA r) (takeB r) = [changedKnob r]) \<and>
     (\<forall>k \<in> set KNOBS. 3 \<le> count_list (map changedKnob batch) (knob_id k))"
proof -
  let ?errs0 = "if length batch \<noteq> ROUNDS_PER_GAME then [WrongLength ROUNDS_PER_GAME] else []"
  let ?cs0 = "map_of (map (\<lambda>k. (knob_id k, 0::nat)) KNOBS)"
  from validate_loop[of ?errs0 ?cs0 batch] obtain cs' where
    1: "foldl (\<lambda>acc r. validateRound r acc) (?errs0, ?cs0) batch =
       (?errs0 @ concat (map round_errs batch), cs')"
    and 2: "\<forall>k. count_of cs' k = count_of ?cs0 k + count_list (map changedKnob batch) k"
    by blast
  have "count_of ?cs0 k = 0" for k by (simp add: count_of_def KNOBS_def)
  with 2 have c: "count_of cs' k = count_list (map changedKnob batch) k" for k by simp
  have "ok (validateRounds batch) \<longleftrightarrow>
      ?errs0 = [] \<and> concat (map round_errs batch) = [] \<and>
      concat (map (\<lambda>k. checkKnob cs' k []) KNOBS) = []"
    by (simp add: validateRounds_def Let_def 1 checkKnob_loop del: concat_eq_Nil_conv)
  also have "?errs0 = [] \<longleftrightarrow> length batch = ROUNDS_PER_GAME" by simp
  also have "concat (map round_errs batch) = [] \<longleftrightarrow>
      (\<forall>r \<in> set batch. nearEqual (noteFreqHz (takeA r)) (noteFreqHz (takeB r)) \<and>
        diffs_of (takeA r) (takeB r) = [changedKnob r])"
    by (simp add: round_errs_Nil_iff)
  also have "concat (map (\<lambda>k. checkKnob cs' k []) KNOBS) = [] \<longleftrightarrow>
      (\<forall>k \<in> set KNOBS. 3 \<le> count_list (map changedKnob batch) (knob_id k))"
  proof -
    have "checkKnob cs' k [] = [] \<longleftrightarrow> 3 \<le> count_list (map changedKnob batch) (knob_id k)" for k
      by (simp add: checkKnob_def c not_less)
    then show ?thesis by simp
  qed
  finally show ?thesis .
qed



section \<open>The retry loop\<close>

declare buildNewRounds_from.simps [simp del]

lemma generateRounds_candidate:
  assumes "valid_draws rs"
  shows "generateRounds rs (n + 60 * k) = Inr (candidate rs n k, n + 60 * Suc k)"
  using generateRounds_Inr[OF assms, of "n + 60 * k"] by (auto simp: candidate_def)

lemma candidate_shift: "candidate rs (n + 60) k = candidate rs n (Suc k)"
  by (simp add: candidate_def add.assoc)

lemma buildNewRounds_from_step:
  assumes "valid_draws rs" "a < 50"
  shows "buildNewRounds_from a rs n =
     (if ok (validateRounds (candidate rs n 0)) then Inr (candidate rs n 0, n + 60)
      else buildNewRounds_from (a + 1) rs (n + 60))"
  using generateRounds_candidate[OF assms(1), of n 0] assms(2)
  by (subst buildNewRounds_from.simps) simp

lemma buildNewRounds_from_stop: "\<not> a < 50 \<Longrightarrow> buildNewRounds_from a rs n = Inl GenerationFailed"
  by (subst buildNewRounds_from.simps) simp

lemma buildNewRounds_from_cases:
  assumes "valid_draws rs"
  shows "d = 50 - a \<Longrightarrow>
    (buildNewRounds_from a rs n = Inl GenerationFailed \<and>
       (\<forall>k. a + k < 50 \<longrightarrow> \<not> ok (validateRounds (candidate rs n k)))) \<or>
    (\<exists>k. a + k < 50 \<and> ok (validateRounds (candidate rs n k)) \<and>
       (\<forall>j < k. \<not> ok (validateRounds (candidate rs n j))) \<and>
       buildNewRounds_from a rs n = Inr (candidate rs n k, n + 60 * Suc k))"
proof (induction d arbitrary: a n)
  case 0
  then have "\<not> a < 50" by simp
  then show ?case by (simp add: buildNewRounds_from_stop)
next
  case (Suc d)
  then have a: "a < 50" and d: "d = 50 - (a + 1)" by simp_all
  show ?case
  proof (cases "ok (validateRounds (candidate rs n 0))")
    case True
    then have "buildNewRounds_from a rs n = Inr (candidate rs n 0, n + 60 * Suc 0)"
      using buildNewRounds_from_step[OF assms a, of n] by simp
    with True a show ?thesis by (intro disjI2 exI[of _ 0]) simp
  next
    case False
    then have step: "buildNewRounds_from a rs n = buildNewRounds_from (a + 1) rs (n + 60)"
      using buildNewRounds_from_step[OF assms a, of n] by simp
    from Suc.IH[OF d, of "n + 60"] show ?thesis
    proof (elim disjE conjE exE)
      assume f: "buildNewRounds_from (a + 1) rs (n + 60) = Inl GenerationFailed"
        and all: "\<forall>k. a + 1 + k < 50 \<longrightarrow> \<not> ok (validateRounds (candidate rs (n + 60) k))"
      have "\<not> ok (validateRounds (candidate rs n k))" if "a + k < 50" for k
      proof (cases k)
        case 0
        with False show ?thesis by simp
      next
        case (Suc k')
        with that all have "\<not> ok (validateRounds (candidate rs (n + 60) k'))" by simp
        then show ?thesis by (simp add: candidate_shift Suc)
      qed
      with f step show ?thesis by simp
    next
      fix k
      assume k: "a + 1 + k < 50" "ok (validateRounds (candidate rs (n + 60) k))"
        "\<forall>j<k. \<not> ok (validateRounds (candidate rs (n + 60) j))"
        "buildNewRounds_from (a + 1) rs (n + 60) = Inr (candidate rs (n + 60) k, n + 60 + 60 * Suc k)"
      have "\<not> ok (validateRounds (candidate rs n j))" if "j < Suc k" for j
      proof (cases j)
        case 0
        with False show ?thesis by simp
      next
        case (Suc j')
        with that k(3) have "\<not> ok (validateRounds (candidate rs (n + 60) j'))" by simp
        then show ?thesis by (simp add: candidate_shift Suc)
      qed
      moreover have "a + Suc k < 50" using k(1) by simp
      moreover have "ok (validateRounds (candidate rs n (Suc k)))"
        using k(2) by (simp add: candidate_shift)
      moreover have "buildNewRounds_from a rs n = Inr (candidate rs n (Suc k), n + 60 * Suc (Suc k))"
        using k(4) step by (simp add: candidate_shift)
      ultimately show ?thesis by blast
    qed
  qed
qed

section \<open>Evaluation at concrete draws\<close>

lemmas eval_defs = generateRounds_def generateRound_def drawBase_def applyChange_def
  randLogFloatSkew_def randFloat_def pick_def shuffle_def knobBag_def KNOBS_def Let_def clamp_def
  numeral_eq_Suc upt_rec settings_defs

lemma valid_zero_draws: "valid_draws zero_draws"
  by (simp add: valid_draws_def zero_draws_def)

lemma valid_half_draws: "valid_draws half_draws"
  by (simp add: valid_draws_def half_draws_def)

lemma generateRounds_zero:
  "generateRounds zero_draws n = Inr (candidate zero_draws 0 0, n + 60)"
  by (simp add: candidate_def zero_draws_def eval_defs)

lemma zero_batch_round2:
  "candidate zero_draws 0 0 ! 2 =
     \<lparr>index = 2, changedKnob = ''resonance'',
      takeA = \<lparr>cutoffHz = 250, resonanceQ = 0.5, decayMs = 120, noteFreqHz = 98\<rparr>,
      takeB = \<lparr>cutoffHz = 250, resonanceQ = 0.5, decayMs = 120, noteFreqHz = 98\<rparr>\<rparr>"
  by (simp add: candidate_def zero_draws_def eval_defs)

lemma zero_batch_invalid: "\<not> ok (validateRounds (candidate zero_draws 0 0))"
proof -
  have "candidate zero_draws 0 0 ! 2 \<in> set (candidate zero_draws 0 0)"
    using generateRounds_Inr[OF valid_zero_draws, of 0] generateRounds_zero[of 0]
    by (intro nth_mem) auto
  moreover have "diffs_of (takeA (candidate zero_draws 0 0 ! 2)) (takeB (candidate zero_draws 0 0 ! 2)) = []"
    by (simp add: zero_batch_round2 diffs_of_def nearEqual_def PARAM_EPS_def)
  ultimately show ?thesis by (auto simp: validateRounds_ok_iff)
qed

lemma zero_candidates: "candidate zero_draws n k = candidate zero_draws 0 0"
  unfolding candidate_def[of zero_draws n k] by (simp add: generateRounds_zero)

lemma generated_batch_ok:
  assumes "valid_draws rs" "generateRounds rs n = Inr (batch, n')"
    and "\<forall>r \<in> set batch. changedKnob r = ''resonance'' \<longrightarrow>
           RESONANCE_Q_MIN + PARAM_EPS < resonanceQ (takeA r)"
  shows "ok (validateRounds batch)"
proof -
  from generateRounds_Inr[OF assms(1), of n] assms(2) obtain k where
    r: "length batch = 10" "k \<in> set KNOBS"
       "mset (map changedKnob batch) = mset (knobBag @ [knob_id k])"
       "\<forall>r \<in> set batch. generated_round r" by auto
  have cnt: "count_list (map changedKnob batch) x = count_list (knobBag @ [knob_id k]) x" for x
    using r(3) by (metis count_mset)
  have "3 \<le> count_list (knobBag @ [knob_id k]) (knob_id k')" if "k' \<in> set KNOBS" for k'
    using that by (auto simp: knobBag_def KNOBS_def numeral_3_eq_3)
  then have c: "\<forall>k \<in> set KNOBS. 3 \<le> count_list (map changedKnob batch) (knob_id k)"
    by (simp add: cnt)
  have "nearEqual (noteFreqHz (takeA r)) (noteFreqHz (takeB r)) \<and>
        diffs_of (takeA r) (takeB r) = [changedKnob r]" if "r \<in> set batch" for r
  proof -
    from that r(4) have g: "generated_round r" by blast
    from generated_round_noteFreq(1)[OF g] have "nearEqual (noteFreqHz (takeA r)) (noteFreqHz (takeB r))"
      by (simp add: nearEqual_def PARAM_EPS_def)
    moreover from generated_round_diffs[OF g] assms(3) that
    have "diffs_of (takeA r) (takeB r) = [changedKnob r]" by fastforce
    ultimately show ?thesis by blast
  qed
  with c r(1) show ?thesis by (simp add: validateRounds_ok_iff ROUNDS_PER_GAME_def)
qed

lemma generateRounds_half:
  "generateRounds half_draws 0 = Inr (candidate half_draws 0 0, 60)"
  using generateRounds_candidate[OF valid_half_draws, of 0 0] by simp

lemma half_batch_resonance:
  "\<forall>r \<in> set (candidate half_draws 0 0). resonanceQ (takeA r) = 17 / 4"
  by (simp add: candidate_def half_draws_def eval_defs)

lemma half_batch_ok: "ok (validateRounds (candidate half_draws 0 0))"
proof (rule generated_batch_ok[OF valid_half_draws generateRounds_half])
  show "\<forall>r \<in> set (candidate half_draws 0 0). changedKnob r = ''resonance'' \<longrightarrow>
           RESONANCE_Q_MIN + PARAM_EPS < resonanceQ (takeA r)"
  proof (intro ballI impI)
    fix r assume "r \<in> set (candidate half_draws 0 0)"
    with half_batch_resonance have "resonanceQ (takeA r) = 17 / 4" by blast
    then show "RESONANCE_Q_MIN + PARAM_EPS < resonanceQ (takeA r)"
      by (simp add: RESONANCE_Q_MIN_def PARAM_EPS_def)
  qed
qed

section \<open>Timers: bookkeeping of the handlers\<close>

lemma not_pending_inv: "\<not> ui_pending s \<Longrightarrow> timers_inv s"
  by (auto simp: ui_pending_def timers_inv_def)

lemma clear_loop:
  "foldl (\<lambda>s' t. clearTimeout t s') s ts =
     s\<lparr>timers := (\<lambda>t. if t \<in> set ts then None else timers s t)\<rparr>"
proof (induction ts arbitrary: s)
  case Nil
  then show ?case by simp
next
  case (Cons t ts)
  have "foldl (\<lambda>s' t. clearTimeout t s') s (t # ts) =
        foldl (\<lambda>s' t. clearTimeout t s') (clearTimeout t s) ts" by simp
  also have "\<dots> = (clearTimeout t s)\<lparr>timers :=
        (\<lambda>x. if x \<in> set ts then None else timers (clearTimeout t s) x)\<rparr>"
    by (rule Cons.IH)
  also have "\<dots> = s\<lparr>timers := (\<lambda>x. if x \<in> set (t # ts) then None else timers s x)\<rparr>"
    by (simp add: clearTimeout_def fun_eq_iff)
  finally show ?case .
qed

lemma clearPhaseTimers_eq:
  "clearPhaseTimers s =
     s\<lparr>timers := (\<lambda>t. if t \<in> set (phaseTimers s) then None else timers s t), phaseTimers := []\<rparr>"
  by (simp add: clearPhaseTimers_def clear_loop)

lemma clearPhaseTimers_not_pending:
  "timers_inv s \<Longrightarrow> \<not> ui_pending (clearPhaseTimers s)"
  by (auto simp: clearPhaseTimers_eq ui_pending_def timers_inv_def)

lemma clearPhaseTimers_fields [simp]:
  "playbackToken (clearPhaseTimers s) = playbackToken s"
  "answered (clearPhaseTimers s) = answered s"
  "roundOutput (clearPhaseTimers s) = roundOutput s"
  "moveNextTimer (clearPhaseTimers s) = moveNextTimer s"
  "rounds (clearPhaseTimers s) = rounds s"
  "currentIndex (clearPhaseTimers s) = currentIndex s"
  "audio (clearPhaseTimers s) = audio s"
  "loopStatus (clearPhaseTimers s) = loopStatus s"
  "loopNextAt (clearPhaseTimers s) = loopNextAt s"
  "optionsEnabled (clearPhaseTimers s) = optionsEnabled s"
  "phaseTimers (clearPhaseTimers s) = []"
  by (simp_all add: clearPhaseTimers_eq)

lemma clearTimers_not_pending:
  "timers_inv s \<Longrightarrow> \<not> ui_pending (clearTimers s)"
  unfolding clearTimers_def
  by (intro clearPhaseTimers_not_pending)
     (auto simp: timers_inv_def clearTimeout_def split: option.splits)

lemma clearTimers_fields [simp]:
  "playbackToken (clearTimers s) = playbackToken s"
  "answered (clearTimers s) = answered s"
  "roundOutput (clearTimers s) = roundOutput s"
  "rounds (clearTimers s) = rounds s"
  "currentIndex (clearTimers s) = currentIndex s"
  "audio (clearTimers s) = audio s"
  "loopStatus (clearTimers s) = loopStatus s"
  "loopNextAt (clearTimers s) = loopNextAt s"
  "optionsEnabled (clearTimers s) = optionsEnabled s"
  "phaseTimers (clearTimers s) = []"
  by (simp_all add: clearTimers_def clearTimeout_def split: option.splits)

lemma stopRoundAudio_not_pending:
  "\<not> ui_pending s \<Longrightarrow> \<not> ui_pending (stopRoundAudio now s)"
  by (auto simp: stopRoundAudio_def setTimeout_def ui_pending_def Let_def split: option.splits)

lemma stopRoundAudio_fields [simp]:
  "playbackToken (stopRoundAudio now s) = playbackToken s"
  "answered (stopRoundAudio now s) = answered s"
  "rounds (stopRoundAudio now s) = rounds s"
  "currentIndex (stopRoundAudio now s) = currentIndex s"
  "audio (stopRoundAudio now s) = audio s"
  "loopStatus (stopRoundAudio now s) = loopStatus s"
  "loopNextAt (stopRoundAudio now s) = loopNextAt s"
  "optionsEnabled (stopRoundAudio now s) = optionsEnabled s"
  "phaseTimers (stopRoundAudio now s) = phaseTimers s"
  "roundOutput (stopRoundAudio now s) = None"
  by (simp_all add: stopRoundAudio_def setTimeout_def Let_def split: option.splits)

lemma playTake_fst: "fst (playTake ps w now s) = w + TAKE_SECONDS"
  by (simp add: playTake_def Let_def)

lemma playTake_fields [simp]:
  "playbackToken (snd (playTake ps w now s)) = playbackToken s"
  "answered (snd (playTake ps w now s)) = answered s"
  "rounds (snd (playTake ps w now s)) = rounds s"
  "currentIndex (snd (playTake ps w now s)) = currentIndex s"
  "loopStatus (snd (playTake ps w now s)) = loopStatus s"
  "loopNextAt (snd (playTake ps w now s)) = loopNextAt s"
  "optionsEnabled (snd (playTake ps w now s)) = optionsEnabled s"
  "phaseTimers (snd (playTake ps w now s)) = phaseTimers s"
  "roundOutput (snd (playTake ps w now s)) = roundOutput s"
  "length (audio (snd (playTake ps w now s))) = Suc (length (audio s))"
  by (simp_all add: playTake_def setTimeout_def Let_def)

lemma playTake_timers:
  "timers (snd (playTake ps w now s)) t = Some (d, UiCallback tok a) \<Longrightarrow>
     timers s t = Some (d, UiCallback tok a)"
  by (simp add: playTake_def setTimeout_def Let_def split: if_splits)

lemma playRound_times:
  "fst (playRound r w now s) =
     \<lparr>aStart = w, aEnd = w + TAKE_SECONDS, bStart = w + TAKE_SECONDS + SILENCE_GAP_SECONDS,
      bEnd = w + TAKE_SECONDS + SILENCE_GAP_SECONDS + TAKE_SECONDS,
      endAt = w + TAKE_SECONDS + SILENCE_GAP_SECONDS + TAKE_SECONDS\<rparr>"
  by (simp add: playRound_def playTake_def Let_def split: prod.splits)

lemma playRound_snd:
  "snd (playRound r w now s) =
     snd (playTake (takeB r) (w + TAKE_SECONDS + SILENCE_GAP_SECONDS) now
       (snd (playTake (takeA r) w now s)))"
proof -
  obtain a1 s1 where p: "playTake (takeA r) w now s = (a1, s1)" by force
  have "a1 = w + TAKE_SECONDS" using playTake_fst[of "takeA r" w now s] p by simp
  then show ?thesis by (simp add: playRound_def Let_def p split: prod.splits)
qed

lemma playRound_fields [simp]:
  "playbackToken (snd (playRound r w now s)) = playbackToken s"
  "answered (snd (playRound r w now s)) = answered s"
  "rounds (snd (playRound r w now s)) = rounds s"
  "currentIndex (snd (playRound r w now s)) = currentIndex s"
  "loopStatus (snd (playRound r w now s)) = loopStatus s"
  "loopNextAt (snd (playRound r w now s)) = loopNextAt s"
  "optionsEnabled (snd (playRound r w now s)) = optionsEnabled s"
  "phaseTimers (snd (playRound r w now s)) = phaseTimers s"
  "roundOutput (snd (playRound r w now s)) = roundOutput s"
  "length (audio (snd (playRound r w now s))) = Suc (Suc (length (audio s)))"
  by (simp_all add: playRound_snd)

lemma playRound_timers:
  "timers (snd (playRound r w now s)) t = Some (d, UiCallback tok a) \<Longrightarrow>
     timers s t = Some (d, UiCallback tok a)"
  unfolding playRound_snd by (blast dest: playTake_timers)

lemma playRound_inv: "timers_inv s \<Longrightarrow> timers_inv (snd (playRound r w now s))"
  unfolding timers_inv_def by (auto dest!: playRound_timers)

lemma scheduleUi_fields [simp]:
  "playbackToken (scheduleUi tok d a s) = playbackToken s"
  "answered (scheduleUi tok d a s) = answered s"
  "rounds (scheduleUi tok d a s) = rounds s"
  "currentIndex (scheduleUi tok d a s) = currentIndex s"
  "loopStatus (scheduleUi tok d a s) = loopStatus s"
  "loopNextAt (scheduleUi tok d a s) = loopNextAt s"
  "optionsEnabled (scheduleUi tok d a s) = optionsEnabled s"
  "roundOutput (scheduleUi tok d a s) = roundOutput s"
  "audio (scheduleUi tok d a s) = audio s"
  by (simp_all add: scheduleUi_def setTimeout_def Let_def)

lemma scheduleUi_inv:
  assumes "timers_inv s" "tok = playbackToken s" "\<not> answered s"
    "\<And>tok'. a = NextLoopCycle tok' \<Longrightarrow> tok' = tok"
  shows "timers_inv (scheduleUi tok d a s)"
  using assms unfolding timers_inv_def
  by (auto simp: scheduleUi_def setTimeout_def Let_def split: if_splits)

lemma playTake_audio: "audio (snd (playTake ps w now s)) = audio s @ [take_at ps w]"
  by (simp add: playTake_def setTimeout_def Let_def take_at_def)

lemma playRound_audio:
  "audio (snd (playRound r w now s)) =
     audio s @ [take_at (takeA r) w, take_at (takeB r) (w + TAKE_SECONDS + SILENCE_GAP_SECONDS)]"
  by (simp add: playRound_snd playTake_audio)

lemma scheduleNextLoopCycle_skip:
  "token \<noteq> playbackToken s \<or> answered s \<or> roundOutput s = None \<Longrightarrow>
     scheduleNextLoopCycle token now s = s"
  by (auto simp: scheduleNextLoopCycle_def)

lemma scheduleNextLoopCycle_run:
  assumes "loop_runs token s"
  shows "scheduleNextLoopCycle token now s =
     (let ps = snd (playRound (rounds s ! currentIndex s) (max (now + 0.005) (loopNextAt s)) now s);
          ts = fst (playRound (rounds s ! currentIndex s) (max (now + 0.005) (loopNextAt s)) now s);
          s2 = scheduleUi token (aStart ts - now) (SetPhase PHASE_A) ps;
          s3 = scheduleUi token (aEnd ts - now) (SetPhase PHASE_GAP) s2;
          s4 = scheduleUi token (bStart ts - now) (SetPhase PHASE_B) s3;
          s5 = scheduleUi token (endAt ts - now) (SetPhase PHASE_GAP) s4;
          s6 = s5\<lparr>loopNextAt := endAt ts + LOOP_CYCLE_PAUSE_SECONDS\<rparr>
      in scheduleUi token (endAt ts + LOOP_CYCLE_PAUSE_SECONDS - SCHEDULING_LEAD_SECONDS - now)
           (NextLoopCycle token) s6)"
proof -
  have m: "(if loopNextAt s < now + 0.005 then now + 0.005 else loopNextAt s) =
      max (now + 0.005) (loopNextAt s)" by (simp add: max_def)
  show ?thesis using assms unfolding loop_runs_def scheduleNextLoopCycle_def m
    by (simp add: Let_def split: prod.splits)
qed

lemma scheduleNextLoopCycle_fields [simp]:
  "playbackToken (scheduleNextLoopCycle tok now s) = playbackToken s"
  "answered (scheduleNextLoopCycle tok now s) = answered s"
  "rounds (scheduleNextLoopCycle tok now s) = rounds s"
  "currentIndex (scheduleNextLoopCycle tok now s) = currentIndex s"
  "loopStatus (scheduleNextLoopCycle tok now s) = loopStatus s"
  "optionsEnabled (scheduleNextLoopCycle tok now s) = optionsEnabled s"
  "roundOutput (scheduleNextLoopCycle tok now s) = roundOutput s"
  by (simp_all add: scheduleNextLoopCycle_def Let_def split: prod.splits)
     (metis playRound_fields snd_conv)+

lemma scheduleNextLoopCycle_inv:
  assumes "timers_inv s"
  shows "timers_inv (scheduleNextLoopCycle token now s)"
proof (cases "loop_runs token s")
  case True
  then have g: "token = playbackToken s" "\<not> answered s" by (simp_all add: loop_runs_def)
  let ?w = "max (now + 0.005) (loopNextAt s)"
  let ?r = "rounds s ! currentIndex s"
  let ?ts = "fst (playRound ?r ?w now s)"
  let ?ps = "snd (playRound ?r ?w now s)"
  have 1: "timers_inv ?ps" using assms by (rule playRound_inv)
  let ?s2 = "scheduleUi token (aStart ?ts - now) (SetPhase PHASE_A) ?ps"
  have 2: "timers_inv ?s2" using g by (intro scheduleUi_inv[OF 1]) simp_all
  let ?s3 = "scheduleUi token (aEnd ?ts - now) (SetPhase PHASE_GAP) ?s2"
  have 3: "timers_inv ?s3" using g by (intro scheduleUi_inv[OF 2]) simp_all
  let ?s4 = "scheduleUi token (bStart ?ts - now) (SetPhase PHASE_B) ?s3"
  have 4: "timers_inv ?s4" using g by (intro scheduleUi_inv[OF 3]) simp_all
  let ?s5 = "scheduleUi token (endAt ?ts - now) (SetPhase PHASE_GAP) ?s4"
  have 5: "timers_inv ?s5" using g by (intro scheduleUi_inv[OF 4]) simp_all
  let ?s6 = "?s5\<lparr>loopNextAt := endAt ?ts + LOOP_CYCLE_PAUSE_SECONDS\<rparr>"
  have 6: "timers_inv ?s6" using 5 by (simp add: timers_inv_def)
  have "timers_inv (scheduleUi token (endAt ?ts + LOOP_CYCLE_PAUSE_SECONDS - SCHEDULING_LEAD_SECONDS - now)
           (NextLoopCycle token) ?s6)"
    using g by (intro scheduleUi_inv[OF 6]) simp_all
  then show ?thesis by (simp add: scheduleNextLoopCycle_run[OF True] Let_def)
next
  case False
  then show ?thesis using assms
    by (auto simp: loop_runs_def scheduleNextLoopCycle_def timers_inv_def)
qed

lemma not_pending_update:
  "\<not> ui_pending s \<Longrightarrow> timers s' = timers s \<Longrightarrow> \<not> ui_pending s'"
  by (simp add: ui_pending_def)

lemma stop_clear_not_pending:
  "timers_inv s \<Longrightarrow> \<not> ui_pending (stopRoundAudio now (clearTimers s))"
  by (intro stopRoundAudio_not_pending clearTimers_not_pending)

lemma startRound_inv:
  assumes "timers_inv s"
  shows "timers_inv (startRound i now rs s)"
proof -
  let ?s1 = "stopRoundAudio now (clearTimers s)"
  have n: "\<not> ui_pending ?s1" using assms by (rule stop_clear_not_pending)
  have inv: "timers_inv s'" if "timers s' = timers ?s1" for s'
    using not_pending_update[OF n that] by (rule not_pending_inv)
  show ?thesis
    unfolding startRound_def Let_def
    by (auto split: sum.splits prod.splits intro!: inv scheduleNextLoopCycle_inv simp: setPhase_def)
qed

lemma startNewGame_inv:
  assumes "timers_inv s"
  shows "timers_inv (startNewGame now rs s)"
proof -
  let ?s1 = "stopRoundAudio now (clearTimers s)"
  have n: "\<not> ui_pending ?s1" using assms by (rule stop_clear_not_pending)
  have inv: "timers_inv s'" if "timers s' = timers ?s1" for s'
    using not_pending_update[OF n that] by (rule not_pending_inv)
  show ?thesis
    unfolding startNewGame_def Let_def
    by (auto split: sum.splits prod.splits intro!: inv startRound_inv)
qed

lemma finishGame_not_pending:
  assumes "timers_inv s"
  shows "\<not> ui_pending (finishGame now s)"
  using stop_clear_not_pending[OF assms, of now]
  by (simp add: finishGame_def setPhase_def ui_pending_def)

lemma clearPhaseTimers_tracked:
  assumes "\<forall>t d tok a. timers s t = Some (d, UiCallback tok a) \<longrightarrow> t \<in> set (phaseTimers s)"
  shows "\<not> ui_pending (clearPhaseTimers s)"
  using assms by (auto simp: clearPhaseTimers_eq ui_pending_def)

lemma handleAnswer_not_pending:
  assumes "timers_inv s" "\<not> answered s" "optionsEnabled s"
  shows "\<not> ui_pending (handleAnswer knobId now s)"
proof -
  let ?s0 = "s\<lparr>answered := True\<rparr>"
  have "\<forall>t d tok a. timers ?s0 t = Some (d, UiCallback tok a) \<longrightarrow> t \<in> set (phaseTimers ?s0)"
    using assms(1) by (simp add: timers_inv_def)
  then have "\<not> ui_pending (clearPhaseTimers ?s0)" by (rule clearPhaseTimers_tracked)
  then have n: "\<not> ui_pending (stopRoundAudio now (clearPhaseTimers ?s0))"
    by (rule stopRoundAudio_not_pending)
  show ?thesis using n assms(2,3)
    by (auto simp: handleAnswer_def Let_def setPhase_def setTimeout_def ui_pending_def
        split: prod.splits)
qed

lemma handleAnswer_inv:
  assumes "timers_inv s"
  shows "timers_inv (handleAnswer knobId now s)"
proof (cases "answered s \<or> \<not> optionsEnabled s")
  case True
  then show ?thesis using assms by (auto simp: handleAnswer_def)
next
  case False
  then show ?thesis using handleAnswer_not_pending[OF assms] by (intro not_pending_inv) simp
qed

lemma run_callback_inv:
  assumes "timers_inv s"
  shows "timers_inv (run_callback cb now rs s)"
proof (cases cb)
  case (UiCallback tok fn)
  show ?thesis
  proof (cases fn)
    case (SetPhase p)
    have "timers_inv (setPhase p s)" using assms by (simp add: timers_inv_def setPhase_def)
    with UiCallback SetPhase assms show ?thesis by (simp add: run_callback_def)
  next
    case (NextLoopCycle tok')
    with UiCallback assms scheduleNextLoopCycle_inv[OF assms, of tok' now]
    show ?thesis by (simp add: run_callback_def)
  qed
next
  case Disconnect
  then show ?thesis using assms by (simp add: run_callback_def)
next
  case MoveNext
  then show ?thesis using assms finishGame_not_pending[OF assms, of now]
    by (auto simp: run_callback_def intro: startRound_inv not_pending_inv)
qed

lemma fire_inv:
  assumes "timers_inv s"
  shows "timers_inv (fire t now rs s)"
proof (cases "timers s t")
  case None
  then show ?thesis using assms by (simp add: fire_def)
next
  case (Some p)
  obtain d cb where p: "p = (d, cb)" by (cases p)
  have "timers_inv (s\<lparr>timers := (timers s)(t := None)\<rparr>)"
    using assms by (auto simp: timers_inv_def split: if_splits)
  then show ?thesis using Some p by (simp add: fire_def run_callback_inv)
qed

lemma step_inv: "timers_inv s \<Longrightarrow> timers_inv (step e s)"
  by (cases e) (simp_all add: startNewGame_inv handleAnswer_inv fire_inv)

lemma initial_inv: "timers_inv initial"
  by (simp add: timers_inv_def initial_def)

lemma reachable_inv: "reachable s \<Longrightarrow> timers_inv s"
  by (induction rule: reachable.induct) (simp_all add: initial_inv step_inv)

section \<open>A concrete game\<close>

lemma buildNewRounds_half: "buildNewRounds half_draws 0 = Inr (candidate half_draws 0 0, 60)"
  using buildNewRounds_from_step[OF valid_half_draws, of 0 0] half_batch_ok
  by (simp add: buildNewRounds_def)

lemma half_batch_length: "length (candidate half_draws 0 0) = 10"
  using generateRounds_Inr[OF valid_half_draws, of 0] generateRounds_half by auto

lemma shuffle_half:
  "shuffle (map knob_id KNOBS) (\<lambda>k. half_draws (60 + k)) 0 =
     Inr ([''cutoff'', ''decay'', ''resonance''], 2)"
  by (simp add: shuffle_def KNOBS_def half_draws_def Let_def numeral_eq_Suc)

lemma clear_initial: "stopRoundAudio now (clearTimers initial) = initial"
  by (simp add: stopRoundAudio_def clearTimers_def clearPhaseTimers_def initial_def)

lemma demo_started_eq: "demo_started = scheduleNextLoopCycle 1 0 demo_ready"
proof -
  let ?s = "initial\<lparr>rounds := candidate half_draws 0 0\<rparr>"
  have c: "stopRoundAudio 0 (clearTimers ?s) = ?s"
    by (simp add: stopRoundAudio_def clearTimers_def clearPhaseTimers_def initial_def)
  have e: "initial\<lparr>rounds := candidate half_draws 0 0, currentIndex := 0, score := 0,
      answered := False, results := []\<rparr> = ?s" by (simp add: initial_def)
  have "demo_started = startRound 0 0 (\<lambda>k. half_draws (60 + k)) ?s"
    by (simp add: demo_started_def startNewGame_def clear_initial buildNewRounds_half e)
  also have "\<dots> = scheduleNextLoopCycle 1 0 demo_ready"
    unfolding startRound_def c Let_def shuffle_half
    by (simp add: initial_def half_batch_length setPhase_def demo_ready_def
        SCHEDULING_LEAD_SECONDS_def)
  finally show ?thesis .
qed

lemma demo_ready_runs: "loop_runs 1 demo_ready"
  by (simp add: loop_runs_def demo_ready_def initial_def half_batch_length)

lemma playTake_snd:
  "snd (playTake ps w now s) =
     s\<lparr>timers := (timers s)(nextTimerId s \<mapsto>
          (max 0 ((w + TAKE_SECONDS + TAKE_CLEANUP_EXTRA_SECONDS - now) * 1000), Disconnect)),
       nextTimerId := nextTimerId s + 1, audio := audio s @ [take_at ps w]\<rparr>"
  by (simp add: playTake_def setTimeout_def Let_def take_at_def)

lemma scheduleUi_eq:
  "scheduleUi tok d a s =
     s\<lparr>timers := (timers s)(nextTimerId s \<mapsto> (max 0 (d * 1000), UiCallback tok a)),
       nextTimerId := nextTimerId s + 1, phaseTimers := phaseTimers s @ [nextTimerId s]\<rparr>"
  by (simp add: scheduleUi_def setTimeout_def)

lemma cycle_start_max: "cycle_start now s = max (now + 0.005) (loopNextAt s)"
  by (simp add: cycle_start_def max_def)

lemma cycle_times_eq:
  "cycle_times now s =
     \<lparr>aStart = cycle_start now s,
      aEnd = cycle_start now s + TAKE_SECONDS,
      bStart = cycle_start now s + TAKE_SECONDS + SILENCE_GAP_SECONDS,
      bEnd = cycle_start now s + TAKE_SECONDS + SILENCE_GAP_SECONDS + TAKE_SECONDS,
      endAt = cycle_start now s + TAKE_SECONDS + SILENCE_GAP_SECONDS + TAKE_SECONDS\<rparr>"
  by (simp add: cycle_times_def playRound_times)

lemmas cycle_simps = scheduleNextLoopCycle_run Let_def playRound_times playRound_snd
  playTake_snd scheduleUi_eq

lemma scheduleNextLoopCycle_audio:
  assumes "loop_runs token s"
  shows "audio (scheduleNextLoopCycle token now s) = audio s @
          [take_at (takeA (rounds s ! currentIndex s)) (aStart (cycle_times now s)),
           take_at (takeB (rounds s ! currentIndex s)) (bStart (cycle_times now s))]"
  unfolding cycle_times_eq cycle_start_max by (simp add: cycle_simps assms)

lemma scheduleNextLoopCycle_loopNextAt:
  assumes "loop_runs token s"
  shows "loopNextAt (scheduleNextLoopCycle token now s) =
     endAt (cycle_times now s) + LOOP_CYCLE_PAUSE_SECONDS"
  unfolding cycle_times_eq cycle_start_max by (simp add: cycle_simps assms)

lemma scheduleNextLoopCycle_timers:
  assumes "loop_runs token s"
  shows "nextTimerId (scheduleNextLoopCycle token now s) = nextTimerId s + 7"
    "phaseTimers (scheduleNextLoopCycle token now s) = phaseTimers s @
         [nextTimerId s + 2, nextTimerId s + 3, nextTimerId s + 4, nextTimerId s + 5,
          nextTimerId s + 6]"
    "timers (scheduleNextLoopCycle token now s) (nextTimerId s) =
       Some (max 0 ((aStart (cycle_times now s) + TAKE_SECONDS + TAKE_CLEANUP_EXTRA_SECONDS - now) * 1000),
             Disconnect)"
    "timers (scheduleNextLoopCycle token now s) (nextTimerId s + 6) =
       Some (max 0 ((endAt (cycle_times now s) + LOOP_CYCLE_PAUSE_SECONDS
                      - SCHEDULING_LEAD_SECONDS - now) * 1000),
             UiCallback token (NextLoopCycle token))"
    "moveNextTimer (scheduleNextLoopCycle token now s) = moveNextTimer s"
    "timers (scheduleNextLoopCycle token now s) (nextTimerId s + 2) =
       Some (max 0 ((aStart (cycle_times now s) - now) * 1000), UiCallback token (SetPhase PHASE_A))"
  unfolding cycle_times_eq cycle_start_max by (simp_all add: cycle_simps assms algebra_simps)

lemma demo_started_fields:
  "loop_runs 1 demo_started" "playbackToken demo_started = 1" "\<not> answered demo_started"
  "optionsEnabled demo_started" "rounds demo_started = candidate half_draws 0 0"
  "currentIndex demo_started = 0" "roundOutput demo_started = Some ()"
  "loopNextAt demo_started = 4.65" "nextTimerId demo_started = 8"
  "phaseTimers demo_started = [3, 4, 5, 6, 7]" "moveNextTimer demo_started = None"
  "timers demo_started 1 = Some (2200, Disconnect)"
  "timers demo_started 7 = Some (4600, UiCallback 1 (NextLoopCycle 1))"
  "audio demo_started =
     [take_at (takeA (candidate half_draws 0 0 ! 0)) 0.05,
      take_at (takeB (candidate half_draws 0 0 ! 0)) 2.3]"
  "timers demo_started 3 = Some (50, UiCallback 1 (SetPhase PHASE_A))"
proof -
  have f: "playbackToken demo_ready = 1" "\<not> answered demo_ready" "optionsEnabled demo_ready"
    "rounds demo_ready = candidate half_draws 0 0" "currentIndex demo_ready = 0"
    "roundOutput demo_ready = Some ()" "loopNextAt demo_ready = 0.05"
    "nextTimerId demo_ready = 1" "phaseTimers demo_ready = []" "audio demo_ready = []"
    "moveNextTimer demo_ready = None"
    by (simp_all add: demo_ready_def initial_def)
  have t: "cycle_times 0 demo_ready =
      \<lparr>aStart = 0.05, aEnd = 2.05, bStart = 2.3, bEnd = 4.3, endAt = 4.3\<rparr>"
    by (simp add: cycle_times_eq cycle_start_max f TAKE_SECONDS_def SILENCE_GAP_SECONDS_def)
  note r = demo_ready_runs
  show "loop_runs 1 demo_started"
    using r unfolding demo_started_eq loop_runs_def by simp
  show "playbackToken demo_started = 1" "\<not> answered demo_started" "optionsEnabled demo_started"
    "rounds demo_started = candidate half_draws 0 0" "currentIndex demo_started = 0"
    "roundOutput demo_started = Some ()"
    unfolding demo_started_eq by (simp_all add: f)
  show "loopNextAt demo_started = 4.65"
    unfolding demo_started_eq scheduleNextLoopCycle_loopNextAt[OF r] t
    by (simp add: LOOP_CYCLE_PAUSE_SECONDS_def)
  show "nextTimerId demo_started = 8" "phaseTimers demo_started = [3, 4, 5, 6, 7]"
    "moveNextTimer demo_started = None"
    unfolding demo_started_eq scheduleNextLoopCycle_timers[OF r] by (simp_all add: f)
  show "timers demo_started 1 = Some (2200, Disconnect)"
    using scheduleNextLoopCycle_timers(3)[OF r, of 0] unfolding demo_started_eq t f
    by (simp add: TAKE_SECONDS_def TAKE_CLEANUP_EXTRA_SECONDS_def)
  show "timers demo_started 7 = Some (4600, UiCallback 1 (NextLoopCycle 1))"
    using scheduleNextLoopCycle_timers(4)[OF r, of 0] unfolding demo_started_eq t f
    by (simp add: LOOP_CYCLE_PAUSE_SECONDS_def SCHEDULING_LEAD_SECONDS_def)
  show "audio demo_started =
     [take_at (takeA (candidate half_draws 0 0 ! 0)) 0.05,
      take_at (takeB (candidate half_draws 0 0 ! 0)) 2.3]"
    unfolding demo_started_eq scheduleNextLoopCycle_audio[OF r] t by (simp add: f)
  show "timers demo_started 3 = Some (50, UiCallback 1 (SetPhase PHASE_A))"
    using scheduleNextLoopCycle_timers(6)[OF r, of 0] unfolding demo_started_eq t f
    by (simp add: numeral_3_eq_3)
qed

lemma handleAnswer_fields:
  assumes "\<not> answered s" "optionsEnabled s"
  shows "answered (handleAnswer knobId now s)"
    "playbackToken (handleAnswer knobId now s) = playbackToken s"
    "audio (handleAnswer knobId now s) = audio s"
    "loopNextAt (handleAnswer knobId now s) = loopNextAt s"
    "loopStatus (handleAnswer knobId now s) = PHASE_ANSWER"
    "t \<notin> set (phaseTimers s) \<Longrightarrow> t < nextTimerId s \<Longrightarrow>
       timers (handleAnswer knobId now s) t = timers s t"
  using assms
  by (simp_all add: handleAnswer_def Let_def setPhase_def setTimeout_def clearPhaseTimers_eq
      stopRoundAudio_def split: prod.splits option.splits)

lemma reachable_demo_started: "reachable demo_started"
  using reachable_step[OF reachable_initial, of "NewGame 0 half_draws"]
  by (simp add: demo_started_def)

lemma reachable_demo_answered: "reachable demo_answered"
  using reachable_step[OF reachable_demo_started, of "Answer ''cutoff'' 1"]
  by (simp add: demo_answered_def)

lemma demo_answered_fields:
  "answered demo_answered" "playbackToken demo_answered = 1"
  "loopStatus demo_answered = PHASE_ANSWER"
  "timers demo_answered 1 = Some (2200, Disconnect)"
  "audio demo_answered = audio demo_started"
proof -
  note h = handleAnswer_fields[OF demo_started_fields(3,4), where knobId = "''cutoff''" and now = 1]
  show "answered demo_answered" "playbackToken demo_answered = 1"
    "loopStatus demo_answered = PHASE_ANSWER" "audio demo_answered = audio demo_started"
    unfolding demo_answered_def by (simp_all add: h demo_started_fields)
  have "timers demo_answered 1 = timers demo_started 1"
    unfolding demo_answered_def by (rule h(6)) (simp_all add: demo_started_fields)
  then show "timers demo_answered 1 = Some (2200, Disconnect)"
    by (simp only: demo_started_fields)
qed

lemma loopNextAt_kept:
  "loopNextAt (run_callback Disconnect clock rs s) = loopNextAt s"
  "loopNextAt (run_callback (UiCallback tok (SetPhase p)) clock rs s) = loopNextAt s"
  "loopNextAt (handleAnswer k clock s) = loopNextAt s"
  by (simp_all add: run_callback_def setPhase_def handleAnswer_def Let_def setTimeout_def
      split: prod.splits)

lemma startRound_token: "playbackToken (startRound i now rs s) = playbackToken s + 1"
  by (simp add: startRound_def Let_def setPhase_def split: sum.splits prod.splits)

lemma finishGame_cursor:
  "loopNextAt (finishGame now s) = loopNextAt s"
  by (simp add: finishGame_def setPhase_def)

lemma scheduleNextLoopCycle_quiet:
  assumes "audio (scheduleNextLoopCycle token now s) = audio s"
  shows "loopNextAt (scheduleNextLoopCycle token now s) = loopNextAt s"
proof (cases "loop_runs token s")
  case True
  from scheduleNextLoopCycle_audio[OF True, of now] assms show ?thesis by simp
next
  case False
  then show ?thesis by (auto simp: loop_runs_def scheduleNextLoopCycle_def)
qed

lemma run_callback_quiet:
  assumes "playbackToken (run_callback cb now rs s) = playbackToken s"
    "audio (run_callback cb now rs s) = audio s"
  shows "loopNextAt (run_callback cb now rs s) = loopNextAt s"
proof (cases cb)
  case (UiCallback tok fn)
  show ?thesis
  proof (cases fn)
    case (SetPhase p)
    with UiCallback show ?thesis by (simp add: loopNextAt_kept)
  next
    case (NextLoopCycle tok')
    with UiCallback assms(2) show ?thesis
      by (auto simp: run_callback_def intro: scheduleNextLoopCycle_quiet)
  qed
next
  case Disconnect
  then show ?thesis by (simp add: loopNextAt_kept)
next
  case MoveNext
  with assms(1) show ?thesis
    by (auto simp: run_callback_def startRound_token finishGame_cursor split: if_splits)
qed

lemma step_quiet:
  assumes "playbackToken (step e s) = playbackToken s" "audio (step e s) = audio s"
  shows "loopNextAt (step e s) = loopNextAt s"
proof (cases e)
  case (NewGame now rs)
  with assms(1) show ?thesis
    by (auto simp: startNewGame_def Let_def startRound_token split: sum.splits prod.splits)
next
  case (Answer k now)
  then show ?thesis by (simp add: loopNextAt_kept)
next
  case (Timeout t now rs)
  show ?thesis
  proof (cases "timers s t")
    case None
    with Timeout show ?thesis by (simp add: fire_def)
  next
    case (Some p)
    obtain d cb where p: "p = (d, cb)" by (cases p)
    let ?s = "s\<lparr>timers := (timers s)(t := None)\<rparr>"
    have e: "step e s = run_callback cb now rs ?s" using Timeout Some p by (simp add: fire_def)
    from assms have "playbackToken (run_callback cb now rs ?s) = playbackToken ?s"
      "audio (run_callback cb now rs ?s) = audio ?s" unfolding e by simp_all
    from run_callback_quiet[OF this] show ?thesis unfolding e by simp
  qed
qed

lemma quiet_run:
  "quiet es s \<Longrightarrow>
     loopNextAt (run es s) = loopNextAt s \<and> playbackToken (run es s) = playbackToken s \<and>
     audio (run es s) = audio s"
proof (induction es arbitrary: s)
  case Nil
  then show ?case by (simp add: run_def)
next
  case (Cons e es)
  then have q: "playbackToken (step e s) = playbackToken s" "audio (step e s) = audio s"
    "quiet es (step e s)" by simp_all
  from step_quiet[OF q(1,2)] Cons.IH[OF q(3)] q(1,2) show ?case by (simp add: run_def)
qed

lemma half_batch_order:
  "map changedKnob (candidate half_draws 0 0) =
     [''cutoff'', ''resonance'', ''cutoff'', ''decay'', ''cutoff'',
      ''decay'', ''resonance'', ''decay'', ''resonance'', ''resonance'']"
  by (simp add: candidate_def half_draws_def eval_defs)


lemma diffs_of_single:
  assumes "diffs_of a b = [c]"
  shows "(PARAM_EPS < \<bar>cutoffHz a - cutoffHz b\<bar>) = (c = ''cutoff'')"
    "(PARAM_EPS < \<bar>resonanceQ a - resonanceQ b\<bar>) = (c = ''resonance'')"
    "(PARAM_EPS < \<bar>decayMs a - decayMs b\<bar>) = (c = ''decay'')"
  using assms by (auto simp: diffs_of_def nearEqual_def split: if_splits)

section \<open>Claims about the round generator\<close>

text \<open>
  Claim C6.  For every sequence of draws in \<open>[0, 1)\<close> the generator returns a batch, and in
  every round of it the resonance of take B lies in \<open>[RESONANCE_Q_MIN, RESONANCE_Q_MAX]\<close>,
  the decay of take B lies in \<open>[DECAY_MS_MIN, DECAY_MS_MAX]\<close>, and the cutoff of take B is
  strictly positive and bounded (by \<open>2500 * 2.6 = 6500\<close>), hence finite.
\<close>

theorem perturbed_values_in_range:
  assumes "valid_draws rs"
  shows "\<exists>batch. generateRounds rs n = Inr (batch, n + 60) \<and>
     length batch = ROUNDS_PER_GAME \<and>
     (\<forall>r \<in> set batch.
        RESONANCE_Q_MIN \<le> resonanceQ (takeB r) \<and> resonanceQ (takeB r) \<le> RESONANCE_Q_MAX \<and>
        DECAY_MS_MIN \<le> decayMs (takeB r) \<and> decayMs (takeB r) \<le> DECAY_MS_MAX \<and>
        0 < cutoffHz (takeB r) \<and> cutoffHz (takeB r) \<le> 6500)"
proof -
  from generateRounds_Inr[OF assms, of n] obtain batch where
    r: "generateRounds rs n = Inr (batch, n + 60)" "length batch = 10"
       "\<forall>r \<in> set batch. generated_round r" by blast
  have "RESONANCE_Q_MIN \<le> resonanceQ (takeB r) \<and> resonanceQ (takeB r) \<le> RESONANCE_Q_MAX \<and>
        DECAY_MS_MIN \<le> decayMs (takeB r) \<and> decayMs (takeB r) \<le> DECAY_MS_MAX \<and>
        0 < cutoffHz (takeB r) \<and> cutoffHz (takeB r) \<le> 6500" if "r \<in> set batch" for r
    using generated_round_ranges[of r] r(3) that
    by (simp add: RESONANCE_Q_MIN_def RESONANCE_Q_MAX_def DECAY_MS_MIN_def DECAY_MS_MAX_def)
  with r(1,2) show ?thesis by (auto simp: ROUNDS_PER_GAME_def)
qed

theorem perturbed_values_in_range_witness:
  "valid_draws half_draws \<and>
   (\<exists>batch. generateRounds half_draws 0 = Inr (batch, 60) \<and> batch \<noteq> [] \<and>
      RESONANCE_Q_MIN \<le> resonanceQ (takeB (batch ! 0)) \<and>
      resonanceQ (takeB (batch ! 0)) \<le> RESONANCE_Q_MAX \<and>
      DECAY_MS_MIN \<le> decayMs (takeB (batch ! 0)) \<and>
      decayMs (takeB (batch ! 0)) \<le> DECAY_MS_MAX \<and>
      0 < cutoffHz (takeB (batch ! 0)) \<and> cutoffHz (takeB (batch ! 0)) \<le> 6500)"
proof -
  from perturbed_values_in_range[OF valid_half_draws, of 0] obtain batch where
    r: "generateRounds half_draws 0 = Inr (batch, 60)" "length batch = ROUNDS_PER_GAME"
    and a: "\<forall>r \<in> set batch.
        RESONANCE_Q_MIN \<le> resonanceQ (takeB r) \<and> resonanceQ (takeB r) \<le> RESONANCE_Q_MAX \<and>
        DECAY_MS_MIN \<le> decayMs (takeB r) \<and> decayMs (takeB r) \<le> DECAY_MS_MAX \<and>
        0 < cutoffHz (takeB r) \<and> cutoffHz (takeB r) \<le> 6500" by auto
  from r(2) have ne: "batch \<noteq> []" by (auto simp: ROUNDS_PER_GAME_def)
  then have "batch ! 0 \<in> set batch" by simp
  with a r(1) ne valid_half_draws show ?thesis by blast
qed

text \<open>
  Claim C10.  In every round of a generated batch the note pitch of take A is one of the five
  values of \<open>NOTE_FREQUENCIES_HZ\<close>, and take B holds the very same value: both takes are
  copies of one base draw and no branch of the perturbation touches \<open>noteFreqHz\<close>.
\<close>

theorem note_pitch_shared:
  assumes "valid_draws rs"
  shows "\<exists>batch. generateRounds rs n = Inr (batch, n + 60) \<and>
     length batch = ROUNDS_PER_GAME \<and>
     (\<forall>r \<in> set batch.
        noteFreqHz (takeA r) \<in> {98.0, 110.0, 130.81, 146.83, 164.81} \<and>
        noteFreqHz (takeA r) \<in> set NOTE_FREQUENCIES_HZ \<and>
        noteFreqHz (takeB r) = noteFreqHz (takeA r))"
proof -
  from generateRounds_Inr[OF assms, of n] obtain batch where
    r: "generateRounds rs n = Inr (batch, n + 60)" "length batch = 10"
       "\<forall>r \<in> set batch. generated_round r" by blast
  have s: "set NOTE_FREQUENCIES_HZ = {98.0, 110.0, 130.81, 146.83, 164.81}"
    unfolding NOTE_FREQUENCIES_HZ_def by (simp only: list.set)
  have "noteFreqHz (takeA r) \<in> {98.0, 110.0, 130.81, 146.83, 164.81} \<and>
        noteFreqHz (takeA r) \<in> set NOTE_FREQUENCIES_HZ \<and>
        noteFreqHz (takeB r) = noteFreqHz (takeA r)" if "r \<in> set batch" for r
    using generated_round_noteFreq[of r] r(3) that unfolding s by blast
  with r(1,2) show ?thesis unfolding ROUNDS_PER_GAME_def by blast
qed

theorem note_pitch_shared_witness:
  "valid_draws half_draws \<and>
   (\<exists>batch. generateRounds half_draws 0 = Inr (batch, 60) \<and> batch \<noteq> [] \<and>
      noteFreqHz (takeA (batch ! 0)) \<in> {98.0, 110.0, 130.81, 146.83, 164.81} \<and>
      noteFreqHz (takeB (batch ! 0)) = noteFreqHz (takeA (batch ! 0)))"
proof -
  from note_pitch_shared[OF valid_half_draws, of 0] obtain batch where
    r: "generateRounds half_draws 0 = Inr (batch, 60)" "length batch = ROUNDS_PER_GAME"
    and a: "\<forall>r \<in> set batch.
        noteFreqHz (takeA r) \<in> {98.0, 110.0, 130.81, 146.83, 164.81} \<and>
        noteFreqHz (takeA r) \<in> set NOTE_FREQUENCIES_HZ \<and>
        noteFreqHz (takeB r) = noteFreqHz (takeA r)" by auto
  from r(2) have ne: "batch \<noteq> []" by (auto simp: ROUNDS_PER_GAME_def)
  then have "batch ! 0 \<in> set batch" by simp
  with a r(1) ne valid_half_draws show ?thesis by blast
qed



text \<open>
  Claim C7.  The cutoff branch multiplies the base cutoff by \<open>2.6\<close> when the draw is below
  one half and by \<open>0.38\<close> otherwise, writes the product unclamped into take B and leaves
  the three other fields as they are; with base cutoff 500 and the first multiplier take B
  gets cutoff 1300.
\<close>

theorem cutoff_perturbation:
  assumes "0 \<le> rs n" "rs n < 1"
  shows "applyChange ''cutoff'' a a rs n =
           Inr (a\<lparr>cutoffHz := cutoffHz a * (if rs n < 1 / 2 then 2.6 else 0.38)\<rparr>, Suc n) \<and>
         (rs n < 1 / 2 \<and> cutoffHz a = 500 \<longrightarrow>
            applyChange ''cutoff'' a a rs n = Inr (a\<lparr>cutoffHz := 1300\<rparr>, Suc n))"
proof -
  have i: "\<lfloor>rs n * 2\<rfloor> = (if rs n < 1 / 2 then 0 else 1)"
    using assms by (auto simp: floor_eq_iff)
  have "applyChange ''cutoff'' a a rs n =
           Inr (a\<lparr>cutoffHz := cutoffHz a * (if rs n < 1 / 2 then 2.6 else 0.38)\<rparr>, Suc n)"
    using assms by (simp add: applyChange_def pick_def CUTOFF_CHANGE_MULTIPLIERS_def i)
  then show ?thesis by simp
qed

theorem cutoff_perturbation_witness:
  "0 \<le> zero_draws 0 \<and> zero_draws 0 < 1 \<and> zero_draws 0 < 1 / 2 \<and>
   applyChange ''cutoff''
     \<lparr>cutoffHz = 500, resonanceQ = 4, decayMs = 600, noteFreqHz = 110\<rparr>
     \<lparr>cutoffHz = 500, resonanceQ = 4, decayMs = 600, noteFreqHz = 110\<rparr> zero_draws 0 =
   Inr (\<lparr>cutoffHz = 1300, resonanceQ = 4, decayMs = 600, noteFreqHz = 110\<rparr>, 1)"
  using cutoff_perturbation[of zero_draws 0 "\<lparr>cutoffHz = 500, resonanceQ = 4, decayMs = 600, noteFreqHz = 110\<rparr>"]
  by (simp add: zero_draws_def)

text \<open>
  Claim C1.  A batch is produced by generating candidates and validating them until one
  passes (\<open>buildNewRounds\<close>).  For every sequence of draws in \<open>[0, 1)\<close> that function
  either throws \<open>GenerationFailed\<close> or returns a batch of \<open>ROUNDS_PER_GAME\<close> rounds, and in
  every round of a returned batch the two takes hold the same note pitch, the changed knob
  is one of the three knob ids, and a field among cutoff, resonance and decay differs by
  more than \<open>PARAM_EPS\<close> between the takes exactly when it is the field named by
  \<open>changedKnob\<close>: one field differs, and it is that one.
\<close>

theorem accepted_round_single_change:
  assumes "valid_draws rs"
  shows "buildNewRounds rs n = Inl GenerationFailed \<or>
     (\<exists>batch n'. buildNewRounds rs n = Inr (batch, n') \<and>
        length batch = ROUNDS_PER_GAME \<and>
        (\<forall>r \<in> set batch.
           noteFreqHz (takeA r) = noteFreqHz (takeB r) \<and>
           diffs_of (takeA r) (takeB r) = [changedKnob r] \<and>
           changedKnob r \<in> set (map knob_id KNOBS) \<and>
           (PARAM_EPS < \<bar>cutoffHz (takeA r) - cutoffHz (takeB r)\<bar>) = (changedKnob r = ''cutoff'') \<and>
           (PARAM_EPS < \<bar>resonanceQ (takeA r) - resonanceQ (takeB r)\<bar>) =
             (changedKnob r = ''resonance'') \<and>
           (PARAM_EPS < \<bar>decayMs (takeA r) - decayMs (takeB r)\<bar>) = (changedKnob r = ''decay'')))"
proof -
  have "50 = 50 - (0::nat)" by simp
  from buildNewRounds_from_cases[OF assms this, of n] show ?thesis
  proof (elim disjE conjE exE)
    assume "buildNewRounds_from 0 rs n = Inl GenerationFailed"
    then show ?thesis by (simp add: buildNewRounds_def)
  next
    fix k
    assume k: "ok (validateRounds (candidate rs n k))"
      "buildNewRounds_from 0 rs n = Inr (candidate rs n k, n + 60 * Suc k)"
    let ?b = "candidate rs n k"
    from generateRounds_Inr[OF assms, of "n + 60 * k"] generateRounds_candidate[OF assms, of n k]
    have g: "\<forall>r \<in> set ?b. generated_round r" by auto
    from k(1) have v: "length ?b = ROUNDS_PER_GAME"
      "\<forall>r \<in> set ?b. diffs_of (takeA r) (takeB r) = [changedKnob r]"
      by (simp_all add: validateRounds_ok_iff)
    have "noteFreqHz (takeA r) = noteFreqHz (takeB r) \<and>
           diffs_of (takeA r) (takeB r) = [changedKnob r] \<and>
           changedKnob r \<in> set (map knob_id KNOBS) \<and>
           (PARAM_EPS < \<bar>cutoffHz (takeA r) - cutoffHz (takeB r)\<bar>) = (changedKnob r = ''cutoff'') \<and>
           (PARAM_EPS < \<bar>resonanceQ (takeA r) - resonanceQ (takeB r)\<bar>) =
             (changedKnob r = ''resonance'') \<and>
           (PARAM_EPS < \<bar>decayMs (takeA r) - decayMs (takeB r)\<bar>) = (changedKnob r = ''decay'')"
      if "r \<in> set ?b" for r
    proof -
      from that g v(2) have gr: "generated_round r"
        and d: "diffs_of (takeA r) (takeB r) = [changedKnob r]" by blast+
      from gr have "changedKnob r \<in> set (map knob_id KNOBS)"
        by (auto simp: generated_round_def perturbed_def KNOBS_def)
      with generated_round_noteFreq(1)[OF gr] d diffs_of_single[OF d] show ?thesis by simp
    qed
    moreover from k(2) have "buildNewRounds rs n = Inr (?b, n + 60 * Suc k)"
      by (simp add: buildNewRounds_def)
    ultimately show ?thesis using v(1) by blast
  qed
qed

theorem accepted_round_single_change_witness:
  "valid_draws half_draws \<and>
   buildNewRounds half_draws 0 = Inr (candidate half_draws 0 0, 60) \<and>
   candidate half_draws 0 0 \<noteq> [] \<and>
   changedKnob (candidate half_draws 0 0 ! 0) = ''cutoff'' \<and>
   noteFreqHz (takeA (candidate half_draws 0 0 ! 0)) = noteFreqHz (takeB (candidate half_draws 0 0 ! 0)) \<and>
   diffs_of (takeA (candidate half_draws 0 0 ! 0)) (takeB (candidate half_draws 0 0 ! 0)) = [''cutoff''] \<and>
   PARAM_EPS < \<bar>cutoffHz (takeA (candidate half_draws 0 0 ! 0))
                - cutoffHz (takeB (candidate half_draws 0 0 ! 0))\<bar> \<and>
   \<not> PARAM_EPS < \<bar>resonanceQ (takeA (candidate half_draws 0 0 ! 0))
                - resonanceQ (takeB (candidate half_draws 0 0 ! 0))\<bar> \<and>
   \<not> PARAM_EPS < \<bar>decayMs (takeA (candidate half_draws 0 0 ! 0))
                - decayMs (takeB (candidate half_draws 0 0 ! 0))\<bar>"
proof -
  let ?b = "candidate half_draws 0 0"
  from accepted_round_single_change[OF valid_half_draws, of 0] buildNewRounds_half
  have l: "length ?b = ROUNDS_PER_GAME"
    and a: "\<forall>r \<in> set ?b.
           noteFreqHz (takeA r) = noteFreqHz (takeB r) \<and>
           diffs_of (takeA r) (takeB r) = [changedKnob r] \<and>
           changedKnob r \<in> set (map knob_id KNOBS) \<and>
           (PARAM_EPS < \<bar>cutoffHz (takeA r) - cutoffHz (takeB r)\<bar>) = (changedKnob r = ''cutoff'') \<and>
           (PARAM_EPS < \<bar>resonanceQ (takeA r) - resonanceQ (takeB r)\<bar>) =
             (changedKnob r = ''resonance'') \<and>
           (PARAM_EPS < \<bar>decayMs (takeA r) - decayMs (takeB r)\<bar>) = (changedKnob r = ''decay'')"
    by auto
  from l have ne: "?b \<noteq> []" by (auto simp: ROUNDS_PER_GAME_def)
  then have m: "?b ! 0 \<in> set ?b" by simp
  have "map changedKnob ?b ! 0 = ''cutoff''" unfolding half_batch_order by simp
  then have c: "changedKnob (?b ! 0) = ''cutoff''" using ne by (simp add: nth_map)
  from a m c valid_half_draws buildNewRounds_half ne show ?thesis by simp
qed

section \<open>Claims about batch construction\<close>

text \<open>
  Claim C9.  \<open>buildNewRounds\<close> generates and validates candidate batches one after the
  other, at most 50 of them.  Either all 50 candidates fail validation and the function
  throws (\<open>GenerationFailed\<close>), or it returns the first candidate that passes validation,
  every candidate before it having been rejected; it never returns a batch that did not
  pass \<open>validateRounds\<close>.
\<close>

theorem buildNewRounds_retries:
  assumes "valid_draws rs"
  shows "(buildNewRounds rs n = Inl GenerationFailed \<and>
            (\<forall>k < 50. \<not> ok (validateRounds (candidate rs n k)))) \<or>
         (\<exists>k < 50. generateRounds rs (n + 60 * k) = Inr (candidate rs n k, n + 60 * Suc k) \<and>
            ok (validateRounds (candidate rs n k)) \<and>
            (\<forall>j < k. \<not> ok (validateRounds (candidate rs n j))) \<and>
            buildNewRounds rs n = Inr (candidate rs n k, n + 60 * Suc k))"
proof -
  have "50 = 50 - (0::nat)" by simp
  from buildNewRounds_from_cases[OF assms this, of n] show ?thesis
  proof (elim disjE conjE exE)
    assume "buildNewRounds_from 0 rs n = Inl GenerationFailed"
      "\<forall>k. 0 + k < 50 \<longrightarrow> \<not> ok (validateRounds (candidate rs n k))"
    then show ?thesis by (simp add: buildNewRounds_def)
  next
    fix k
    assume k: "0 + k < 50" "ok (validateRounds (candidate rs n k))"
      "\<forall>j<k. \<not> ok (validateRounds (candidate rs n j))"
      "buildNewRounds_from 0 rs n = Inr (candidate rs n k, n + 60 * Suc k)"
    from k(1) have "k < 50" by simp
    moreover note generateRounds_candidate[OF assms, of n k] k(2,3)
    moreover from k(4) have "buildNewRounds rs n = Inr (candidate rs n k, n + 60 * Suc k)"
      by (simp add: buildNewRounds_def)
    ultimately show ?thesis by blast
  qed
qed

theorem buildNewRounds_retries_witness:
  "valid_draws zero_draws \<and> buildNewRounds zero_draws 0 = Inl GenerationFailed \<and>
   valid_draws half_draws \<and> ok (validateRounds (candidate half_draws 0 0)) \<and>
   buildNewRounds half_draws 0 = Inr (candidate half_draws 0 0, 60)"
proof -
  have z: "\<not> ok (validateRounds (candidate zero_draws 0 k))" for k
    using zero_batch_invalid zero_candidates[of 0 k] by simp
  from buildNewRounds_retries[OF valid_zero_draws, of 0]
  have 1: "buildNewRounds zero_draws 0 = Inl GenerationFailed"
  proof (elim disjE conjE exE)
    fix k assume "ok (validateRounds (candidate zero_draws 0 k))"
    with z[of k] show ?thesis by simp
  qed
  from buildNewRounds_retries[OF valid_half_draws, of 0]
  have 2: "buildNewRounds half_draws 0 = Inr (candidate half_draws 0 0, 60)"
  proof (elim disjE conjE exE)
    assume "\<forall>k<50. \<not> ok (validateRounds (candidate half_draws 0 k))"
    then have "\<not> ok (validateRounds (candidate half_draws 0 0))" by simp
    with half_batch_ok show ?thesis by simp
  next
    fix k assume k: "\<forall>j<k. \<not> ok (validateRounds (candidate half_draws 0 j))"
      "buildNewRounds half_draws 0 = Inr (candidate half_draws 0 k, 0 + 60 * Suc k)"
    from k(1) half_batch_ok have "k = 0" by (cases k) auto
    with k(2) show ?thesis by simp
  qed
  from 1 2 valid_zero_draws valid_half_draws half_batch_ok show ?thesis by simp
qed

section \<open>Claims about the audio engine and the scheduler\<close>

text \<open>
  Claim C4.  The oscillator of a voice is told to stop at
  \<open>max (noteStartTime + 0.01) (min hardStopTime (noteStartTime + attack + decay + release))\<close>,
  with \<open>decay = decayMs / 1000\<close>.  This is never earlier than 10 ms after the start of the
  note, whatever \<open>hardStopTime\<close> is, and a voice with \<open>decayMs = 120000\<close> whose hard stop
  is 50 ms after its start stops at \<open>noteStartTime + 0.05\<close>.
\<close>

theorem oscillator_stop_time:
  "oscStop (scheduleVoice ps noteStartTime hardStopTime) =
     max (noteStartTime + 0.01)
         (min hardStopTime
              (noteStartTime + AMP_ATTACK_SECONDS + msToSec (decayMs ps) + AMP_RELEASE_SECONDS)) \<and>
   noteStartTime + 0.01 \<le> oscStop (scheduleVoice ps noteStartTime hardStopTime) \<and>
   oscStart (scheduleVoice ps noteStartTime hardStopTime) = noteStartTime \<and>
   oscStop (scheduleVoice (ps\<lparr>decayMs := 120000\<rparr>) noteStartTime (noteStartTime + 0.05)) =
     noteStartTime + 0.05"
  by (simp add: scheduleVoice_def Let_def msToSec_def AMP_ATTACK_SECONDS_def
      AMP_RELEASE_SECONDS_def min.commute)




text \<open>
  Claim C8.  The timestamps returned by \<open>playRound\<close> satisfy
  \<open>aStart < aEnd \<le> bStart < bEnd \<le> endAt\<close> for every round and start time.  If a cycle
  was scheduled in state \<open>s\<close> and the next cycle of the round is scheduled after any run of
  events that starts no round and schedules no cycle, then the second cycle starts
  at least \<open>LOOP_CYCLE_PAUSE_SECONDS\<close> after the end of the first, hence strictly after its
  start.  The states between two cycles of a round are those reached by a \<open>quiet\<close> run
  of events: one in which no event changes the session token or builds a take.
\<close>

theorem playback_times_monotone:
  assumes "loop_runs token s"
    and "quiet es (scheduleNextLoopCycle token now s)"
    and "loop_runs token (run es (scheduleNextLoopCycle token now s))"
  shows
    "aStart (fst (playRound r w clock s0)) = w \<and>
     aStart (fst (playRound r w clock s0)) < aEnd (fst (playRound r w clock s0)) \<and>
     aEnd (fst (playRound r w clock s0)) \<le> bStart (fst (playRound r w clock s0)) \<and>
     bStart (fst (playRound r w clock s0)) < bEnd (fst (playRound r w clock s0)) \<and>
     bEnd (fst (playRound r w clock s0)) \<le> endAt (fst (playRound r w clock s0)) \<and>
     audio (scheduleNextLoopCycle token now s) =
       audio s @ [take_at (takeA (rounds s ! currentIndex s)) (aStart (cycle_times now s)),
                  take_at (takeB (rounds s ! currentIndex s)) (bStart (cycle_times now s))] \<and>
     audio (scheduleNextLoopCycle token now' (run es (scheduleNextLoopCycle token now s))) =
       audio (scheduleNextLoopCycle token now s) @
         [take_at (takeA (rounds (run es (scheduleNextLoopCycle token now s)) !
                     currentIndex (run es (scheduleNextLoopCycle token now s))))
            (aStart (cycle_times now' (run es (scheduleNextLoopCycle token now s)))),
          take_at (takeB (rounds (run es (scheduleNextLoopCycle token now s)) !
                     currentIndex (run es (scheduleNextLoopCycle token now s))))
            (bStart (cycle_times now' (run es (scheduleNextLoopCycle token now s))))] \<and>
     endAt (cycle_times now s) + LOOP_CYCLE_PAUSE_SECONDS
       \<le> aStart (cycle_times now' (run es (scheduleNextLoopCycle token now s))) \<and>
     aStart (cycle_times now s)
       < aStart (cycle_times now' (run es (scheduleNextLoopCycle token now s)))"
proof -
  let ?s1 = "scheduleNextLoopCycle token now s"
  let ?s' = "run es ?s1"
  have o: "aStart (fst (playRound r w clock s0)) = w \<and>
     aStart (fst (playRound r w clock s0)) < aEnd (fst (playRound r w clock s0)) \<and>
     aEnd (fst (playRound r w clock s0)) \<le> bStart (fst (playRound r w clock s0)) \<and>
     bStart (fst (playRound r w clock s0)) < bEnd (fst (playRound r w clock s0)) \<and>
     bEnd (fst (playRound r w clock s0)) \<le> endAt (fst (playRound r w clock s0))"
    by (simp add: playRound_times TAKE_SECONDS_def SILENCE_GAP_SECONDS_def)
  from quiet_run[OF assms(2)]
  have q: "loopNextAt ?s' = loopNextAt ?s1" "audio ?s' = audio ?s1" by simp_all
  have l: "loopNextAt ?s' = endAt (cycle_times now s) + LOOP_CYCLE_PAUSE_SECONDS"
    using q(1) scheduleNextLoopCycle_loopNextAt[OF assms(1), of now] by simp
  have g: "endAt (cycle_times now s) + LOOP_CYCLE_PAUSE_SECONDS \<le> aStart (cycle_times now' ?s')"
    by (simp add: cycle_times_eq[of now' ?s'] cycle_start_max l)
  have "aStart (cycle_times now s) < endAt (cycle_times now s) + LOOP_CYCLE_PAUSE_SECONDS"
    by (simp add: cycle_times_eq[of now s] TAKE_SECONDS_def SILENCE_GAP_SECONDS_def
        LOOP_CYCLE_PAUSE_SECONDS_def)
  with g have lt: "aStart (cycle_times now s) < aStart (cycle_times now' ?s')" by simp
  have a2: "audio (scheduleNextLoopCycle token now' ?s') =
       audio ?s1 @ [take_at (takeA (rounds ?s' ! currentIndex ?s')) (aStart (cycle_times now' ?s')),
                    take_at (takeB (rounds ?s' ! currentIndex ?s')) (bStart (cycle_times now' ?s'))]"
    using scheduleNextLoopCycle_audio[OF assms(3), of now'] q(2) by simp
  from o g lt a2 scheduleNextLoopCycle_audio[OF assms(1), of now]
  show ?thesis by blast
qed

theorem playback_times_monotone_witness:
  "loop_runs 1 demo_ready \<and> scheduleNextLoopCycle 1 0 demo_ready = demo_started \<and>
   quiet [Timeout 3 0.05 half_draws] demo_started \<and>
   loop_runs 1 (run [Timeout 3 0.05 half_draws] demo_started) \<and>
   loopStatus (run [Timeout 3 0.05 half_draws] demo_started) = PHASE_A \<and>
   cycle_times 0 demo_ready =
     \<lparr>aStart = 0.05, aEnd = 2.05, bStart = 2.3, bEnd = 4.3, endAt = 4.3\<rparr> \<and>
   cycle_times 4.6 (run [Timeout 3 0.05 half_draws] demo_started) =
     \<lparr>aStart = 4.65, aEnd = 6.65, bStart = 6.9, bEnd = 8.9, endAt = 8.9\<rparr> \<and>
   endAt (cycle_times 0 demo_ready) + LOOP_CYCLE_PAUSE_SECONDS
     \<le> aStart (cycle_times 4.6 (run [Timeout 3 0.05 half_draws] demo_started)) \<and>
   aStart (cycle_times 0 demo_ready)
     < aStart (cycle_times 4.6 (run [Timeout 3 0.05 half_draws] demo_started))"
proof -
  let ?es = "[Timeout 3 0.05 half_draws]"
  have e: "scheduleNextLoopCycle 1 0 demo_ready = demo_started" by (simp add: demo_started_eq)
  have st: "run ?es demo_started =
      demo_started\<lparr>timers := (timers demo_started)(3 := None), loopStatus := PHASE_A\<rparr>"
    by (simp add: run_def fire_def demo_started_fields run_callback_def setPhase_def)
  have q: "quiet ?es demo_started"
    using st by (simp add: run_def)
  have r: "loop_runs 1 (run ?es demo_started)"
    using demo_started_fields(1) unfolding st by (simp add: loop_runs_def)
  have f: "loopNextAt demo_ready = 0.05" by (simp add: demo_ready_def initial_def)
  have 1: "cycle_times 0 demo_ready =
     \<lparr>aStart = 0.05, aEnd = 2.05, bStart = 2.3, bEnd = 4.3, endAt = 4.3\<rparr>"
    by (simp add: cycle_times_eq cycle_start_max f TAKE_SECONDS_def SILENCE_GAP_SECONDS_def)
  have 2: "cycle_times 4.6 (run ?es demo_started) =
     \<lparr>aStart = 4.65, aEnd = 6.65, bStart = 6.9, bEnd = 8.9, endAt = 8.9\<rparr>"
    unfolding st
    by (simp add: cycle_times_eq cycle_start_max demo_started_fields TAKE_SECONDS_def
        SILENCE_GAP_SECONDS_def)
  from playback_times_monotone[OF demo_ready_runs, of ?es 0, unfolded e, OF q r, where now' = "4.6"]
  have "endAt (cycle_times 0 demo_ready) + LOOP_CYCLE_PAUSE_SECONDS
     \<le> aStart (cycle_times 4.6 (run ?es demo_started))"
    "aStart (cycle_times 0 demo_ready) < aStart (cycle_times 4.6 (run ?es demo_started))"
    by blast+
  moreover have "loopStatus (run ?es demo_started) = PHASE_A" unfolding st by simp
  ultimately show ?thesis using demo_ready_runs e q r 1 2 by blast
qed

text \<open>
  Claim C3, as stated, fails for phase callbacks: the closure built by \<open>scheduleUi\<close> compares
  the token only.  In the concrete game, accepting the answer leaves the session token at 1,
  and the phase closure of token 1, run in the answered state, still calls \<open>setPhase\<close>.
  (No such closure is pending in that state: \<open>handleAnswer\<close> has cleared its timer.)
\<close>

theorem phase_callback_ignores_answered:
  "reachable demo_answered \<and> answered demo_answered \<and>
   playbackToken demo_started = 1 \<and> playbackToken demo_answered = 1 \<and>
   loopStatus demo_answered = PHASE_ANSWER \<and>
   loopStatus (run_callback (UiCallback 1 (SetPhase PHASE_A)) 2 half_draws demo_answered) = PHASE_A"
  using reachable_demo_answered demo_answered_fields demo_started_fields(2)
  by (simp add: run_callback_def setPhase_def)

text \<open>
  Claim C3, amended.  A closure of \<open>scheduleUi\<close> does nothing when its token is not the
  current session token; the loop continuation also does nothing when the round is
  answered.  In every reachable state a pending closure of \<open>scheduleUi\<close> carries the current
  token, belongs to an unanswered round and is listed in \<open>phaseTimers\<close>.  Accepting an
  answer sets the answered flag, leaves the token and the scheduled audio as they are and
  clears every pending closure of \<open>scheduleUi\<close>; from then on, until the timer that moves to
  the next round fires, a timeout that fires only removes itself: no cycle is scheduled
  and no phase is shown.
\<close>

theorem answered_round_is_silent:
  "(token \<noteq> playbackToken s \<longrightarrow> run_callback (UiCallback token fn) now rs s = s) \<and>
   (answered s \<longrightarrow> run_callback (UiCallback token (NextLoopCycle token')) now rs s = s) \<and>
   (reachable s \<longrightarrow> timers s t = Some (d, UiCallback token fn) \<longrightarrow>
      token = playbackToken s \<and> \<not> answered s \<and> t \<in> set (phaseTimers s)) \<and>
   (reachable s \<longrightarrow> \<not> answered s \<longrightarrow> optionsEnabled s \<longrightarrow>
      answered (handleAnswer knobId now s) \<and>
      playbackToken (handleAnswer knobId now s) = playbackToken s \<and>
      audio (handleAnswer knobId now s) = audio s \<and>
      (\<forall>t' d' token' fn'. timers (handleAnswer knobId now s) t' \<noteq> Some (d', UiCallback token' fn'))) \<and>
   (reachable s \<longrightarrow> answered s \<longrightarrow> timers s t = Some (d, cb) \<longrightarrow> cb \<noteq> MoveNext \<longrightarrow>
      fire t now rs s = s\<lparr>timers := (timers s)(t := None)\<rparr>)"
proof (intro conjI impI)
  assume "token \<noteq> playbackToken s"
  then show "run_callback (UiCallback token fn) now rs s = s" by (simp add: run_callback_def)
next
  assume "answered s"
  then show "run_callback (UiCallback token (NextLoopCycle token')) now rs s = s"
    by (simp add: run_callback_def scheduleNextLoopCycle_skip)
next
  assume r: "reachable s" and t: "timers s t = Some (d, UiCallback token fn)"
  from reachable_inv[OF r] t
  show "token = playbackToken s" "\<not> answered s" "t \<in> set (phaseTimers s)"
    unfolding timers_inv_def by blast+
next
  assume r: "reachable s" and a: "\<not> answered s" "optionsEnabled s"
  show "answered (handleAnswer knobId now s)"
    "playbackToken (handleAnswer knobId now s) = playbackToken s"
    "audio (handleAnswer knobId now s) = audio s"
    using handleAnswer_fields(1-3)[OF a] by simp_all
  from handleAnswer_not_pending[OF reachable_inv[OF r] a, of knobId now]
  show "\<forall>t' d' token' fn'. timers (handleAnswer knobId now s) t' \<noteq> Some (d', UiCallback token' fn')"
    by (simp add: ui_pending_def)
next
  assume r: "reachable s" and a: "answered s" and t: "timers s t = Some (d, cb)"
    and m: "cb \<noteq> MoveNext"
  have "cb = Disconnect"
  proof (cases cb)
    case (UiCallback tok fn')
    with reachable_inv[OF r] t a show ?thesis unfolding timers_inv_def by blast
  qed (use m in simp_all)
  with t show "fire t now rs s = s\<lparr>timers := (timers s)(t := None)\<rparr>"
    by (simp add: fire_def run_callback_def)
qed

theorem answered_round_is_silent_witness:
  "reachable demo_started \<and> \<not> answered demo_started \<and> optionsEnabled demo_started \<and>
   timers demo_started 7 = Some (4600, UiCallback 1 (NextLoopCycle 1)) \<and>
   playbackToken demo_started = 1 \<and> 7 \<in> set (phaseTimers demo_started) \<and>
   run_callback (UiCallback 0 (SetPhase PHASE_A)) 3 half_draws demo_started = demo_started \<and>
   reachable demo_answered \<and> answered demo_answered \<and>
   playbackToken demo_answered = playbackToken demo_started \<and>
   audio demo_answered = audio demo_started \<and>
   timers demo_answered 7 = None \<and>
   run_callback (UiCallback 1 (NextLoopCycle 1)) 3 half_draws demo_answered = demo_answered \<and>
   timers demo_answered 1 = Some (2200, Disconnect) \<and>
   fire 1 3 half_draws demo_answered = demo_answered\<lparr>timers := (timers demo_answered)(1 := None)\<rparr>"
proof -
  note a = answered_round_is_silent
  have 1: "run_callback (UiCallback 0 (SetPhase PHASE_A)) 3 half_draws demo_started = demo_started"
    using a[of 0 demo_started] demo_started_fields(2) by simp
  have 2: "7 \<in> set (phaseTimers demo_started)"
    using a[of _ demo_started _ _ _ _ 7] reachable_demo_started demo_started_fields(13) by blast
  have 3: "answered demo_answered" "playbackToken demo_answered = playbackToken demo_started"
    "audio demo_answered = audio demo_started"
    "\<forall>t' d' token' fn'. timers demo_answered t' \<noteq> Some (d', UiCallback token' fn')"
    using a[of _ demo_started _ _ _ _ _ _ "''cutoff''"] reachable_demo_started demo_started_fields(3,4)
    unfolding demo_answered_def by blast+
  have 4: "timers demo_answered 7 = None"
    unfolding demo_answered_def
    by (simp add: handleAnswer_def demo_started_fields Let_def setPhase_def setTimeout_def
        clearPhaseTimers_eq stopRoundAudio_def half_batch_length split: prod.splits)
  have 5: "run_callback (UiCallback 1 (NextLoopCycle 1)) 3 half_draws demo_answered = demo_answered"
    using a[of _ demo_answered] 3(1) by blast
  have 6: "fire 1 3 half_draws demo_answered = demo_answered\<lparr>timers := (timers demo_answered)(1 := None)\<rparr>"
    using a[of _ demo_answered _ _ _ _ 1 2200 _ Disconnect] reachable_demo_answered 3(1)
      demo_answered_fields(4) by blast
  from 1 2 3 4 5 6 reachable_demo_started reachable_demo_answered demo_started_fields
    demo_answered_fields(4)
  show ?thesis by simp
qed

end
